theory Spec2Isabelle
  imports Main "HOL-Library.Word" "HOL-Library.Sublist"
begin

unbundle bit_operations_syntax

section \<open>The watcher package: data\<close>

text \<open>
  The theory embeds \<^verbatim>\<open>package watcher\<close>: the \<^verbatim>\<open>Watcher\<close> struct, the ingestion of raw
  fsnotify events (\<^verbatim>\<open>bufferEvent\<close>), the debounce sweep (\<^verbatim>\<open>processBufferedEvents\<close>), the
  registrar (\<^verbatim>\<open>addRecursive\<close>, \<^verbatim>\<open>handleDirectoryEvent\<close>) and the lifecycle (\<^verbatim>\<open>New\<close>,
  \<^verbatim>\<open>Start\<close>, \<^verbatim>\<open>Stop\<close>). Every function is run sequentially: one call at a time on an
  explicit state. Whatever the operating system answers (stat, lstat, ReadDir, the result of
  \<^verbatim>\<open>fsWatcher.Add\<close>) and the clock reading of \<^verbatim>\<open>time.Now()\<close> are inputs of the model.
\<close>

subsection \<open>Go values\<close>

text \<open>A Go \<^verbatim>\<open>error\<close> is its message; \<^verbatim>\<open>nil\<close> is \<open>None\<close>.\<close>

type_synonym error = string

text \<open>A run-time panic of the Go program.\<close>

datatype panic = NilPointerDereference | CloseOfClosedChannel

text \<open>
  \<^verbatim>\<open>time.Time\<close> values all come from \<^verbatim>\<open>time.Now()\<close> and carry a monotonic reading; they are
  modelled by that reading in nanoseconds. \<^verbatim>\<open>time.Duration\<close> is an \<^verbatim>\<open>int64\<close> of
  nanoseconds, and \<^verbatim>\<open>Time.Sub\<close> saturates at its two ends.
\<close>

type_synonym Time = int
type_synonym Duration = int

definition maxDuration :: Duration where
  "maxDuration = 2 ^ 63 - 1"

definition minDuration :: Duration where
  "minDuration = - (2 ^ 63)"

definition Millisecond :: Duration where
  "Millisecond = 1000000"

definition Second :: Duration where
  "Second = 1000000000"

definition Sub :: "Time \<Rightarrow> Time \<Rightarrow> Duration" where
  "Sub t u =
     (let d = t - u
      in if maxDuration < d then maxDuration
         else if d < minDuration then minDuration
         else d)"

text \<open>\<^verbatim>\<open>strings.HasPrefix\<close>.\<close>

definition HasPrefix :: "string \<Rightarrow> string \<Rightarrow> bool" where
  "HasPrefix s pre \<longleftrightarrow> length pre \<le> length s \<and> take (length pre) s = pre"

text \<open>
  \<^verbatim>\<open>filepath.Ext\<close> (Unix, separator \<^verbatim>\<open>/\<close>): scan from the last byte towards the first, stop
  at a separator, return the suffix that starts at the first dot met. The loop runs over the
  reversed path; \<open>acc\<close> is the part already passed, \<^verbatim>\<open>path[i+1:]\<close>.
\<close>

fun Ext_loop :: "string \<Rightarrow> string \<Rightarrow> string" where
  "Ext_loop [] acc = []"
| "Ext_loop (c # rest) acc =
     (if c = CHR ''/'' then []
      else if c = CHR ''.'' then c # acc
      else Ext_loop rest (c # acc))"

definition Ext :: "string \<Rightarrow> string" where
  "Ext p = Ext_loop (rev p) []"

text \<open>
  \<^verbatim>\<open>filepath.Base\<close> (Unix, no volume name): the empty path gives \<^verbatim>\<open>.\<close>; trailing slashes are
  stripped; the last element is what follows the last remaining slash; a path of slashes only
  gives \<^verbatim>\<open>/\<close>.
\<close>

definition Base :: "string \<Rightarrow> string" where
  "Base p =
     (if p = [] then ''.''
      else
        (let stripped = rev (dropWhile (\<lambda>c. c = CHR ''/'') (rev p));
             element = rev (takeWhile (\<lambda>c. c \<noteq> CHR ''/'') (rev stripped))
         in if element = [] then ''/'' else element))"

subsection \<open>fsnotify\<close>

text \<open>
  \<^verbatim>\<open>fsnotify.Op\<close> is a \<^verbatim>\<open>uint32\<close> bit mask; the library declares
  \<^verbatim>\<open>Create Op = 1 << iota\<close>, then \<^verbatim>\<open>Write\<close>, \<^verbatim>\<open>Remove\<close>, \<^verbatim>\<open>Rename\<close>, \<^verbatim>\<open>Chmod\<close>.
\<close>

type_synonym Op = "32 word"

definition Create :: Op where
  "Create = 1"

definition Write :: Op where
  "Write = 2"

definition Remove :: Op where
  "Remove = 4"

definition Rename :: Op where
  "Rename = 8"

definition Chmod :: Op where
  "Chmod = 16"

record Event =
  Name :: string
  Op :: Op

text \<open>
  The state of an \<^verbatim>\<open>*fsnotify.Watcher\<close>: the paths it watches and whether it has been closed.
\<close>

record fsnotify_Watcher =
  watches :: "string set"
  closed :: bool

subsection \<open>The file tree seen by \<^verbatim>\<open>filepath.WalkDir\<close>\<close>

text \<open>
  An \<^verbatim>\<open>fs.DirEntry\<close> together with what \<^verbatim>\<open>os.ReadDir\<close> answers for it when it is a
  directory: the entries it could read, in the order returned, and the error, if any.
\<close>

datatype dirent =
  DirEntry (dName: string) (dIsDir: bool) (readDirErr: "error option") (entries: "dirent list")

subsection \<open>The operating system as an input\<close>

record env =
  stat_isDir :: "string \<Rightarrow> bool"
    \<comment> \<open>\<^verbatim>\<open>os.Stat(name)\<close> succeeds and reports a directory\<close>
  lstat :: "string \<Rightarrow> error + dirent"
    \<comment> \<open>\<^verbatim>\<open>os.Lstat\<close> on the root of a walk, with the tree below it\<close>
  addErr :: "string \<Rightarrow> error option"
    \<comment> \<open>the error the notification source answers when asked to watch a path\<close>
  newWatcherErr :: "error option"
    \<comment> \<open>the error of \<^verbatim>\<open>fsnotify.NewWatcher()\<close>\<close>
  closeErr :: "error option"
    \<comment> \<open>the error of \<^verbatim>\<open>fsWatcher.Close()\<close>\<close>

subsection \<open>The logger\<close>

text \<open>
  One constructor for each logging call of the package, with the values formatted into the
  message. The four lines of the sweep that announce a resolved change stand where the code
  has its \<^verbatim>\<open>TODO: Send ... event to queue\<close>: they are the dispatch of the logical event.
\<close>

datatype logline =
    DebugCreate string
  | DebugWrite string
  | DebugRemove string
  | DebugRename string
  | NewDirectoryCreated string
  | FailedToWatchNewDirectory string error
  | FileDeleted string
  | FileCreatedEmpty string
  | FileCreated string
  | FileModified string
  | UnknownEventPattern string
  | ErrorAccessing string error
  | FailedToWatchDirectory string error
  | AddedDirectoryToWatch string
  | FailedToCreateFileWatcher error
  | FailedToAddDirectories error
  | WatchingForChanges string
  | WatcherStarted string
  | WatchError error

subsection \<open>The structs of the package\<close>

record fileEvent =
  path :: string
  isNew :: bool
  isModified :: bool
  isDeleted :: bool
  lastSeen :: Time

text \<open>
  A timer of the Go runtime made by \<^verbatim>\<open>time.AfterFunc(d, w.processBufferedEvents)\<close>: its
  duration and whether it is still due to fire.
\<close>

record Timer =
  duration :: Duration
  active :: bool

text \<open>
  The \<^verbatim>\<open>Watcher\<close> struct. \<open>wpath\<close> is its field \<^verbatim>\<open>path\<close>; \<open>done_closed\<close> is the state of
  the channel \<^verbatim>\<open>done\<close>, which is never sent on, only closed; \<open>debounceTimer\<close> points into
  \<open>timers\<close>, the timers the runtime has created so far. \<open>logged\<close> holds the lines handed to
  the logger, oldest first. The last two are process state kept beside the struct.
\<close>

record Watcher =
  wpath :: string
  fsWatcher :: "fsnotify_Watcher option"
  done_closed :: bool
  eventBuffer :: "string \<rightharpoonup> fileEvent"
  debounceTimer :: "nat option"
  timers :: "Timer list"
  logged :: "logline list"

definition logf :: "logline \<Rightarrow> Watcher \<Rightarrow> Watcher" where
  "logf l w = w\<lparr>logged := logged w @ [l]\<rparr>"

section \<open>The watcher package: functions\<close>

definition New :: "string \<Rightarrow> Watcher" where
  "New p =
     \<lparr>wpath = p, fsWatcher = None, done_closed = False, eventBuffer = Map.empty,
      debounceTimer = None, timers = [], logged = []\<rparr>"

subsection \<open>Filters\<close>

definition isMarkdownFile :: "string \<Rightarrow> bool" where
  "isMarkdownFile filename =
     (if Ext filename \<noteq> ''.md'' then False
      else
        (let base = Base filename
         in if HasPrefix base ''.'' \<or> HasPrefix base ''~'' then False else True))"

definition isDirectory :: "env \<Rightarrow> string \<Rightarrow> bool" where
  "isDirectory e filename = stat_isDir e filename"

subsection \<open>The notification source\<close>

text \<open>
  \<^verbatim>\<open>fsWatcher.Add\<close>: a closed source refuses; otherwise the operating system decides, and a
  path it accepts joins the watched set.
\<close>

definition Add :: "env \<Rightarrow> string \<Rightarrow> fsnotify_Watcher \<Rightarrow> error option \<times> fsnotify_Watcher" where
  "Add e name fw =
     (if closed fw then (Some ''fsnotify: watcher already closed'', fw)
      else case addErr e name of
             Some err \<Rightarrow> (Some err, fw)
           | None \<Rightarrow> (None, fw\<lparr>watches := insert name (watches fw)\<rparr>))"

subsection \<open>Timers\<close>

definition timer_Stop :: "nat \<Rightarrow> Timer list \<Rightarrow> Timer list" where
  "timer_Stop i ts = (if i < length ts then ts[i := (ts ! i)\<lparr>active := False\<rparr>] else ts)"

definition AfterFunc :: "Duration \<Rightarrow> Timer list \<Rightarrow> nat \<times> Timer list" where
  "AfterFunc d ts = (length ts, ts @ [\<lparr>duration = d, active = True\<rparr>])"

subsection \<open>Ingestion\<close>

definition handleDirectoryEvent :: "env \<Rightarrow> Event \<Rightarrow> Watcher \<Rightarrow> panic + Watcher" where
  "handleDirectoryEvent e event w =
     (if Op event AND Create = Create then
        (let w1 = logf (NewDirectoryCreated (Name event)) w
         in case fsWatcher w1 of
              None \<Rightarrow> Inl NilPointerDereference
            | Some fw \<Rightarrow>
                (case Add e (Name event) fw of
                   (Some err, fw') \<Rightarrow>
                     Inr (logf (FailedToWatchNewDirectory (Name event) err)
                            (w1\<lparr>fsWatcher := Some fw'\<rparr>))
                 | (None, fw') \<Rightarrow> Inr (w1\<lparr>fsWatcher := Some fw'\<rparr>)))
      else Inr w)"

text \<open>
  The part of \<^verbatim>\<open>bufferEvent\<close> after its two filters. The map holds a pointer to the entry,
  so the writes through \<^verbatim>\<open>fe\<close> are writes to the entry in the map: the model stores the
  entry once all of them are done.
\<close>

definition bufferFileEvent :: "Time \<Rightarrow> Event \<Rightarrow> Watcher \<Rightarrow> Watcher" where
  "bufferFileEvent now event w =
     (let fe0 = (case eventBuffer w (Name event) of
                   None \<Rightarrow> \<lparr>path = Name event, isNew = False, isModified = False,
                             isDeleted = False, lastSeen = now\<rparr>
                 | Some fe \<Rightarrow> fe);
          fe1 = fe0\<lparr>lastSeen := now\<rparr>;
          (fe2, w2) = (if Op event AND Create = Create
                       then (fe1\<lparr>isNew := True\<rparr>, logf (DebugCreate (Name event)) w)
                       else (fe1, w));
          (fe3, w3) = (if Op event AND Write = Write
                       then (fe2\<lparr>isModified := True\<rparr>, logf (DebugWrite (Name event)) w2)
                       else (fe2, w2));
          (fe4, w4) = (if Op event AND Remove = Remove
                       then (fe3\<lparr>isDeleted := True\<rparr>, logf (DebugRemove (Name event)) w3)
                       else (fe3, w3));
          (fe5, w5) = (if Op event AND Rename = Rename
                       then (fe4\<lparr>isDeleted := True\<rparr>, logf (DebugRename (Name event)) w4)
                       else (fe4, w4));
          w6 = w5\<lparr>eventBuffer := (eventBuffer w5)(Name event \<mapsto> fe5)\<rparr>;
          w7 = (case debounceTimer w6 of
                  None \<Rightarrow> w6
                | Some i \<Rightarrow> w6\<lparr>timers := timer_Stop i (timers w6)\<rparr>);
          (t, ts) = AfterFunc (100 * Millisecond) (timers w7)
      in w7\<lparr>debounceTimer := Some t, timers := ts\<rparr>)"

definition bufferEvent :: "env \<Rightarrow> Time \<Rightarrow> Event \<Rightarrow> Watcher \<Rightarrow> panic + Watcher" where
  "bufferEvent e now event w =
     (if \<not> isMarkdownFile (Name event) \<and> \<not> isDirectory e (Name event) then Inr w
      else if isDirectory e (Name event) then handleDirectoryEvent e event w
      else Inr (bufferFileEvent now event w))"

subsection \<open>The sweep\<close>

text \<open>The body of the loop of \<^verbatim>\<open>processBufferedEvents\<close> for one entry.\<close>

definition sweepEntry :: "Time \<Rightarrow> string \<Rightarrow> fileEvent \<Rightarrow> Watcher \<Rightarrow> Watcher" where
  "sweepEntry now p fe w =
     (if 5 * Second < Sub now (lastSeen fe)
      then w\<lparr>eventBuffer := (eventBuffer w)(p := None)\<rparr>
      else
        (let w1 = (if isDeleted fe then logf (FileDeleted p) w
                   else if isNew fe \<and> \<not> isModified fe then logf (FileCreatedEmpty p) w
                   else if isNew fe \<and> isModified fe then logf (FileCreated p) w
                   else if isModified fe then logf (FileModified p) w
                   else logf (UnknownEventPattern p) w)
         in w1\<lparr>eventBuffer := (eventBuffer w1)(p := None)\<rparr>))"

text \<open>
  \<^verbatim>\<open>for path, fe := range w.eventBuffer\<close>. Go visits the keys of a map in an order it does
  not specify, and does not produce a key that was deleted before it was reached: \<open>order\<close> is
  the order of this run, and a key no longer in the map is passed over.
\<close>

fun rangeEventBuffer :: "Time \<Rightarrow> string list \<Rightarrow> Watcher \<Rightarrow> Watcher" where
  "rangeEventBuffer now [] w = w"
| "rangeEventBuffer now (p # ps) w =
     (case eventBuffer w p of
        None \<Rightarrow> rangeEventBuffer now ps w
      | Some fe \<Rightarrow> rangeEventBuffer now ps (sweepEntry now p fe w))"

definition processBufferedEvents :: "Time \<Rightarrow> string list \<Rightarrow> Watcher \<Rightarrow> Watcher" where
  "processBufferedEvents now order w = rangeEventBuffer now order w"

subsection \<open>The event loop\<close>

text \<open>
  What the goroutine of \<^verbatim>\<open>watch\<close> receives from the two channels of the notification
  source, in the order received. A raw event comes with the answers of the operating system
  and the reading of the clock at the moment it is handled.
\<close>

datatype received = RawEvent env Time Event | RawError error

text \<open>
  The loop of \<^verbatim>\<open>watch\<close> after its first log line; the list ends where a channel is found
  closed and the goroutine returns.
\<close>

fun watch_loop :: "received list \<Rightarrow> Watcher \<Rightarrow> panic + Watcher" where
  "watch_loop [] w = Inr w"
| "watch_loop (RawEvent e now event # rest) w =
     (case bufferEvent e now event w of
        Inl p \<Rightarrow> Inl p
      | Inr w' \<Rightarrow> watch_loop rest w')"
| "watch_loop (RawError err # rest) w = watch_loop rest (logf (WatchError err) w)"

definition watch :: "received list \<Rightarrow> Watcher \<Rightarrow> panic + Watcher" where
  "watch items w = watch_loop items (logf (WatcherStarted (wpath w)) w)"

subsection \<open>The registrar\<close>

text \<open>
  What a call that returns a Go \<^verbatim>\<open>error\<close> gives back: \<^verbatim>\<open>nil\<close>, one of the two sentinels
  \<^verbatim>\<open>filepath.SkipDir\<close> and \<^verbatim>\<open>filepath.SkipAll\<close>, another error; or the panic that ends the
  call, which unwinds through the callers as an error that nobody handles would.
\<close>

datatype ret = Nil | SkipDir | SkipAll | Err error | Panics panic

text \<open>
  \<^verbatim>\<open>filepath.Join(path, name)\<close> for a directory path in clean form and the name of one of
  its entries.
\<close>

definition Join :: "string \<Rightarrow> string \<Rightarrow> string" where
  "Join dir name =
     (if dir = [] then name
      else if last dir = CHR ''/'' then dir @ name
      else dir @ ''/'' @ name)"

text \<open>
  \<^verbatim>\<open>filepath.walkDir\<close> of the Go standard library: call the function on the entry; descend
  only into a directory for which it returned \<^verbatim>\<open>nil\<close>; report a failure of \<^verbatim>\<open>ReadDir\<close>
  with a second call; walk the entries read, in order. \<^verbatim>\<open>SkipDir\<close> from a directory skips
  it, \<^verbatim>\<open>SkipDir\<close> from an entry ends the loop over its siblings; any other non-nil result
  ends the walk.
\<close>

fun walkDir ::
    "(string \<Rightarrow> dirent option \<Rightarrow> error option \<Rightarrow> 's \<Rightarrow> ret \<times> 's)
      \<Rightarrow> string \<Rightarrow> dirent \<Rightarrow> 's \<Rightarrow> ret \<times> 's"
  and walkDir_entries ::
    "(string \<Rightarrow> dirent option \<Rightarrow> error option \<Rightarrow> 's \<Rightarrow> ret \<times> 's)
      \<Rightarrow> string \<Rightarrow> dirent list \<Rightarrow> 's \<Rightarrow> ret \<times> 's"
where
  "walkDir fn p (DirEntry name isdir rerr ds) s =
     (case fn p (Some (DirEntry name isdir rerr ds)) None s of
        (r, s1) \<Rightarrow>
          if r \<noteq> Nil \<or> \<not> isdir then ((if r = SkipDir \<and> isdir then Nil else r), s1)
          else
            (case (case rerr of
                     None \<Rightarrow> (Nil, s1)
                   | Some err \<Rightarrow> fn p (Some (DirEntry name isdir rerr ds)) (Some err) s1) of
               (r2, s2) \<Rightarrow>
                 if r2 \<noteq> Nil then ((if r2 = SkipDir \<and> isdir then Nil else r2), s2)
                 else walkDir_entries fn p ds s2))"
| "walkDir_entries fn p [] s = (Nil, s)"
| "walkDir_entries fn p (d1 # ds) s =
     (case walkDir fn (Join p (dName d1)) d1 s of
        (r, s1) \<Rightarrow>
          if r \<noteq> Nil then ((if r = SkipDir then Nil else r), s1)
          else walkDir_entries fn p ds s1)"

text \<open>
  \<^verbatim>\<open>filepath.WalkDir\<close>: when \<^verbatim>\<open>Lstat\<close> fails on the root, the function is called once, with
  no entry and that error.
\<close>

definition WalkDir ::
    "env \<Rightarrow> string \<Rightarrow> (string \<Rightarrow> dirent option \<Rightarrow> error option \<Rightarrow> 's \<Rightarrow> ret \<times> 's)
      \<Rightarrow> 's \<Rightarrow> ret \<times> 's" where
  "WalkDir e root fn s =
     (case (case lstat e root of
              Inl err \<Rightarrow> fn root None (Some err) s
            | Inr info \<Rightarrow> walkDir fn root info s) of
        (r, s') \<Rightarrow> ((if r = SkipDir \<or> r = SkipAll then Nil else r), s'))"

text \<open>The function literal that \<^verbatim>\<open>addRecursive\<close> hands to \<^verbatim>\<open>filepath.WalkDir\<close>.\<close>

definition addRecursive_fn ::
    "env \<Rightarrow> string \<Rightarrow> string \<Rightarrow> dirent option \<Rightarrow> error option \<Rightarrow> Watcher \<Rightarrow> ret \<times> Watcher" where
  "addRecursive_fn e root p d err w =
     (case err of
        Some er \<Rightarrow> (Nil, logf (ErrorAccessing p er) w)
      | None \<Rightarrow>
          (case d of
             None \<Rightarrow> (Panics NilPointerDereference, w)
           | Some de \<Rightarrow>
               if dIsDir de \<and> HasPrefix (dName de) ''.'' \<and> p \<noteq> root then (SkipDir, w)
               else
                 (case fsWatcher w of
                    None \<Rightarrow> (Panics NilPointerDereference, w)
                  | Some fw \<Rightarrow>
                      (case Add e p fw of
                         (Some er, fw') \<Rightarrow>
                           (Nil, logf (FailedToWatchDirectory p er) (w\<lparr>fsWatcher := Some fw'\<rparr>))
                       | (None, fw') \<Rightarrow>
                           (Nil, logf (AddedDirectoryToWatch p) (w\<lparr>fsWatcher := Some fw'\<rparr>))))))"

definition addRecursive :: "env \<Rightarrow> string \<Rightarrow> Watcher \<Rightarrow> ret \<times> Watcher" where
  "addRecursive e root w = WalkDir e root (addRecursive_fn e root) w"

subsection \<open>Lifecycle\<close>

text \<open>
  \<^verbatim>\<open>fsWatcher.Close\<close>: closing a closed source does nothing and returns \<^verbatim>\<open>nil\<close>.
\<close>

definition Close :: "env \<Rightarrow> fsnotify_Watcher \<Rightarrow> error option \<times> fsnotify_Watcher" where
  "Close e fw = (if closed fw then (None, fw) else (closeErr e, fw\<lparr>closed := True\<rparr>))"

text \<open>
  How a call of \<^verbatim>\<open>Start\<close> stands: it has returned an error value, it is parked at the
  receive \<^verbatim>\<open><-w.done\<close>, or it has panicked.
\<close>

datatype start_result = Returns "error option" | WaitsForDone | StartPanics panic

text \<open>
  The last two lines of \<^verbatim>\<open>Start\<close>: a receive from a closed channel returns at once, a
  receive from an open channel on which nobody sends does not return.
\<close>

definition receive_done :: "Watcher \<Rightarrow> start_result" where
  "receive_done w = (if done_closed w then Returns None else WaitsForDone)"

text \<open>The text of the error value, for \<^verbatim>\<open>%v\<close>.\<close>

definition Error :: "ret \<Rightarrow> error" where
  "Error r =
     (case r of
        Err m \<Rightarrow> m
      | SkipDir \<Rightarrow> ''skip this directory''
      | SkipAll \<Rightarrow> ''skip everything and stop the walk''
      | _ \<Rightarrow> [])"

text \<open>
  \<^verbatim>\<open>Start\<close>, up to the point where it returns or parks at the receive. The goroutine it
  starts with \<^verbatim>\<open>go w.watch()\<close> is \<open>watch\<close> above and runs beside it.
\<close>

definition Start :: "env \<Rightarrow> Watcher \<Rightarrow> start_result \<times> Watcher" where
  "Start e w =
     (case newWatcherErr e of
        Some err \<Rightarrow>
          (Returns (Some (''failed to create file watcher: '' @ err)),
           logf (FailedToCreateFileWatcher err) (w\<lparr>fsWatcher := None\<rparr>))
      | None \<Rightarrow>
          (let w1 = w\<lparr>fsWatcher := Some \<lparr>watches = {}, closed = False\<rparr>\<rparr>
           in case addRecursive e (wpath w1) w1 of
                (Nil, w2) \<Rightarrow>
                  (let w3 = logf (WatchingForChanges (wpath w2)) w2
                   in (receive_done w3, w3))
              | (Panics pn, w2) \<Rightarrow> (StartPanics pn, w2)
              | (r, w2) \<Rightarrow>
                  (Returns (Some (''failed to add directories: '' @ Error r)),
                   logf (FailedToAddDirectories (Error r)) w2)))"

text \<open>\<^verbatim>\<open>Stop\<close>. Closing a channel that is closed already panics.\<close>

definition Stop :: "env \<Rightarrow> Watcher \<Rightarrow> panic + (error option \<times> Watcher)" where
  "Stop e w =
     (case fsWatcher w of
        Some fw \<Rightarrow>
          if done_closed w then Inl CloseOfClosedChannel
          else
            (let w1 = w\<lparr>done_closed := True\<rparr>
             in case Close e fw of
                  (err, fw') \<Rightarrow> Inr (err, w1\<lparr>fsWatcher := Some fw'\<rparr>))
      | None \<Rightarrow> Inr (None, w))"

section \<open>Vocabulary of the specification\<close>

text \<open>The logical events of the specification.\<close>

datatype logical = deleted | created_empty | created | modified

text \<open>The logical event, and its path, that a line of the log announces.\<close>

fun dispatch_of :: "logline \<Rightarrow> (logical \<times> string) option" where
  "dispatch_of (FileDeleted p) = Some (deleted, p)"
| "dispatch_of (FileCreatedEmpty p) = Some (created_empty, p)"
| "dispatch_of (FileCreated p) = Some (created, p)"
| "dispatch_of (FileModified p) = Some (modified, p)"
| "dispatch_of _ = None"

text \<open>The lines logged on the way from a state to a later one.\<close>

definition logged_since :: "Watcher \<Rightarrow> Watcher \<Rightarrow> logline list" where
  "logged_since w w' = drop (length (logged w)) (logged w')"

text \<open>The logical events dispatched for a path on the way from a state to a later one.\<close>

definition dispatched :: "Watcher \<Rightarrow> Watcher \<Rightarrow> string \<Rightarrow> logical list" where
  "dispatched w w' p =
     map fst (filter (\<lambda>kq. snd kq = p) (List.map_filter dispatch_of (logged_since w w')))"

text \<open>
  The resolution table of the specification, row by row, on the triple
  created, modified, deleted.
\<close>

fun spec_resolution :: "bool \<Rightarrow> bool \<Rightarrow> bool \<Rightarrow> logical option" where
  "spec_resolution _ _ True = Some deleted"
| "spec_resolution True False False = Some created_empty"
| "spec_resolution True True False = Some created"
| "spec_resolution False True False = Some modified"
| "spec_resolution False False False = None"

text \<open>The stale threshold and the quiet duration of the specification, in nanoseconds.\<close>

definition StaleThreshold :: Duration where
  "StaleThreshold = 5000000000"

definition QuietDuration :: Duration where
  "QuietDuration = 100000000"

text \<open>
  What the specification says the sweep does with one entry: nothing when it is stale,
  otherwise the one event of the table, or nothing for the row without an event.
\<close>

definition spec_sweep_entry :: "Time \<Rightarrow> fileEvent \<Rightarrow> logical list" where
  "spec_sweep_entry now fe =
     (if StaleThreshold < now - lastSeen fe then []
      else case spec_resolution (isNew fe) (isModified fe) (isDeleted fe) of
             None \<Rightarrow> []
           | Some k \<Rightarrow> [k])"

text \<open>The logical events for a path that a list of log lines announces.\<close>

definition announced :: "string \<Rightarrow> logline list \<Rightarrow> logical list" where
  "announced p ls = map fst (filter (\<lambda>kq. snd kq = p) (List.map_filter dispatch_of ls))"

text \<open>A flag of the pending entry of a path; no entry, no flag.\<close>

definition flag :: "(fileEvent \<Rightarrow> bool) \<Rightarrow> Watcher \<Rightarrow> string \<Rightarrow> bool" where
  "flag f w p = (case eventBuffer w p of None \<Rightarrow> False | Some fe \<Rightarrow> f fe)"

text \<open>Every timer of the runtime that is still due is the debounce timer of the watcher.\<close>

definition single_timer :: "Watcher \<Rightarrow> bool" where
  "single_timer w \<longleftrightarrow>
     (\<forall>i < length (timers w). active (timers w ! i) \<longrightarrow> debounceTimer w = Some i)"

text \<open>What follows the last slash of a path; the whole path when it has no slash.\<close>

definition last_element :: "string \<Rightarrow> string" where
  "last_element p = rev (takeWhile (\<lambda>c. c \<noteq> CHR ''/'') (rev p))"

text \<open>The entries of a tree, each with the path under which the walk meets it.\<close>

fun tree_paths :: "string \<Rightarrow> dirent \<Rightarrow> (string \<times> dirent) list" where
  "tree_paths p (DirEntry name isdir rerr ds) =
     (p, DirEntry name isdir rerr ds) # concat (map (\<lambda>d. tree_paths (Join p (dName d)) d) ds)"

text \<open>The paths a watcher's notification source watches; none without a source.\<close>

definition watched :: "Watcher \<Rightarrow> string set" where
  "watched w = (case fsWatcher w of None \<Rightarrow> {} | Some fw \<Rightarrow> watches fw)"

text \<open>
  The paths of a tree that are not those of a hidden directory other than the root of the
  walk.
\<close>

definition not_hidden :: "string \<Rightarrow> string \<Rightarrow> dirent \<Rightarrow> string set" where
  "not_hidden root p d =
     {q. \<exists>de. (q, de) \<in> set (tree_paths p d)
              \<and> \<not> (dIsDir de \<and> HasPrefix (dName de) ''.'' \<and> q \<noteq> root)}"

section \<open>Example states\<close>

text \<open>A watcher with three pending entries: one deleted, one without any flag, one stale.\<close>

definition pending3 :: Watcher where
  "pending3 =
     (New ''/vault'')
       \<lparr>eventBuffer :=
          [''/vault/a.md'' \<mapsto>
             \<lparr>path = ''/vault/a.md'', isNew = True, isModified = True, isDeleted = True,
              lastSeen = 7000000000\<rparr>,
           ''/vault/b.md'' \<mapsto>
             \<lparr>path = ''/vault/b.md'', isNew = False, isModified = False, isDeleted = False,
              lastSeen = 7000000000\<rparr>,
           ''/vault/c.md'' \<mapsto>
             \<lparr>path = ''/vault/c.md'', isNew = True, isModified = False, isDeleted = False,
              lastSeen = 1000000000\<rparr>]\<rparr>"

text \<open>An operating system where no path is a directory and every call succeeds.\<close>

definition quiet_env :: env where
  "quiet_env =
     \<lparr>stat_isDir = (\<lambda>_. False), lstat = (\<lambda>_. Inl ''no such file or directory''),
      addErr = (\<lambda>_. None), newWatcherErr = None, closeErr = None\<rparr>"

text \<open>A fresh watcher after a create event for a note, and after a write 10 ms later.\<close>

definition created_a :: Watcher where
  "created_a = bufferFileEvent 0 \<lparr>Name = ''/vault/a.md'', Op = Create\<rparr> (New ''/vault'')"

definition written_a :: Watcher where
  "written_a = bufferFileEvent 10000000 \<lparr>Name = ''/vault/a.md'', Op = Write\<rparr> created_a"

text \<open>
  A watcher whose notification source exists, and the save of a note by an editor that
  renames the old file away, creates the new one and writes it.
\<close>

definition started :: Watcher where
  "started = (New ''/vault'')\<lparr>fsWatcher := Some \<lparr>watches = {''/vault''}, closed = False\<rparr>\<rparr>"

definition renamed_a :: Watcher where
  "renamed_a = bufferFileEvent 0 \<lparr>Name = ''/vault/a.md'', Op = Rename\<rparr> started"

definition saved_a :: Watcher where
  "saved_a =
     bufferFileEvent 20000000 \<lparr>Name = ''/vault/a.md'', Op = Write\<rparr>
       (bufferFileEvent 10000000 \<lparr>Name = ''/vault/a.md'', Op = Create\<rparr> renamed_a)"

text \<open>
  A vault with a hidden directory, a note, and a directory of notes; an operating system that
  shows it and lets every call succeed; the watcher once \<open>Start\<close> is parked, and once it has
  been stopped.
\<close>

definition vault_tree :: dirent where
  "vault_tree =
     DirEntry ''vault'' True None
       [DirEntry ''.obsidian'' True None [DirEntry ''plugins'' True None []],
        DirEntry ''a.md'' False None [],
        DirEntry ''notes'' True None [DirEntry ''b.md'' False None []]]"

definition vault_env :: env where
  "vault_env =
     \<lparr>stat_isDir = (\<lambda>p. p \<in> {''/vault'', ''/vault/.obsidian'', ''/vault/.obsidian/plugins'',
                               ''/vault/notes'', ''/vault/.trash''}),
      lstat = (\<lambda>p. if p = ''/vault'' then Inr vault_tree
                    else Inl ''no such file or directory''),
      addErr = (\<lambda>_. None), newWatcherErr = None, closeErr = None\<rparr>"

definition running :: Watcher where
  "running = snd (Start vault_env (New ''/vault''))"

definition stopped :: Watcher where
  "stopped =
     running\<lparr>done_closed := True,
             fsWatcher := Some \<lparr>watches = {''/vault'', ''/vault/a.md'', ''/vault/notes'',
                                             ''/vault/notes/b.md''},
                                 closed = True\<rparr>\<rparr>"

section \<open>Properties of the sweep\<close>

lemma stale_iff: "5 * Second < Sub now t \<longleftrightarrow> StaleThreshold < now - t"
  by (simp add: Sub_def Second_def StaleThreshold_def maxDuration_def minDuration_def Let_def)

lemma announced_append: "announced p (xs @ ys) = announced p xs @ announced p ys"
  by (simp add: announced_def List.map_filter_def)

lemma sweepEntry_eventBuffer:
  "eventBuffer (sweepEntry now p fe w) = (eventBuffer w)(p := None)"
  by (simp add: sweepEntry_def logf_def Let_def)

lemma sweepEntry_prefix: "prefix (logged w) (logged (sweepEntry now p fe w))"
  by (simp add: sweepEntry_def logf_def Let_def)

lemma sweepEntry_announced:
  "announced q (logged (sweepEntry now p fe w)) =
     announced q (logged w) @ (if q = p then spec_sweep_entry now fe else [])"
  unfolding sweepEntry_def spec_sweep_entry_def stale_iff
  by (cases "isNew fe"; cases "isModified fe"; cases "isDeleted fe")
     (simp_all add: logf_def announced_def List.map_filter_def Let_def)

text \<open>After the loop has run over \<open>ks\<close>, exactly the keys in \<open>ks\<close> are gone.\<close>

lemma range_eventBuffer:
  "eventBuffer (rangeEventBuffer now ks w) = (\<lambda>q. if q \<in> set ks then None else eventBuffer w q)"
proof (induction ks arbitrary: w)
  case Nil
  show ?case by simp
next
  case (Cons k ks)
  show ?case
  proof (cases "eventBuffer w k")
    case None
    then show ?thesis using Cons.IH [of w] by (auto simp: fun_eq_iff)
  next
    case (Some fe)
    then show ?thesis using Cons.IH [of "sweepEntry now k fe w"]
      by (auto simp: fun_eq_iff sweepEntry_eventBuffer)
  qed
qed

lemma range_prefix: "prefix (logged w) (logged (rangeEventBuffer now ks w))"
proof (induction ks arbitrary: w)
  case Nil
  show ?case by simp
next
  case (Cons k ks)
  show ?case
  proof (cases "eventBuffer w k")
    case None
    then show ?thesis using Cons.IH [of w] by simp
  next
    case (Some fe)
    have "prefix (logged w) (logged (sweepEntry now k fe w))" by (rule sweepEntry_prefix)
    also have "prefix \<dots> (logged (rangeEventBuffer now ks (sweepEntry now k fe w)))"
      by (rule Cons.IH)
    finally show ?thesis using Some by simp
  qed
qed

lemma range_announced:
  "announced p (logged (rangeEventBuffer now ks w)) =
     announced p (logged w) @
       (if p \<in> set ks
        then (case eventBuffer w p of None \<Rightarrow> [] | Some fe \<Rightarrow> spec_sweep_entry now fe)
        else [])"
proof (induction ks arbitrary: w)
  case Nil
  show ?case by simp
next
  case (Cons k ks)
  show ?case
  proof (cases "eventBuffer w k")
    case None
    then show ?thesis using Cons.IH [of w] by auto
  next
    case (Some fe)
    then show ?thesis using Cons.IH [of "sweepEntry now k fe w"]
      by (auto simp: sweepEntry_eventBuffer sweepEntry_announced split: option.splits)
  qed
qed

text \<open>The warnings about an entry without any flag, among the lines of a log.\<close>

lemma sweepEntry_unknown:
  "filter (\<lambda>l. l = UnknownEventPattern q) (logged (sweepEntry now p fe w)) =
     filter (\<lambda>l. l = UnknownEventPattern q) (logged w) @
       (if q = p \<and> \<not> StaleThreshold < now - lastSeen fe
           \<and> \<not> isNew fe \<and> \<not> isModified fe \<and> \<not> isDeleted fe
        then [UnknownEventPattern p] else [])"
  unfolding sweepEntry_def stale_iff
  by (cases "isNew fe"; cases "isModified fe"; cases "isDeleted fe")
     (auto simp: logf_def Let_def)

lemma range_unknown:
  "filter (\<lambda>l. l = UnknownEventPattern p) (logged (rangeEventBuffer now ks w)) =
     filter (\<lambda>l. l = UnknownEventPattern p) (logged w) @
       (if p \<in> set ks
        then (case eventBuffer w p of
                None \<Rightarrow> []
              | Some fe \<Rightarrow>
                  if \<not> StaleThreshold < now - lastSeen fe
                     \<and> \<not> isNew fe \<and> \<not> isModified fe \<and> \<not> isDeleted fe
                  then [UnknownEventPattern p] else [])
        else [])"
proof (induction ks arbitrary: w)
  case Nil
  show ?case by simp
next
  case (Cons k ks)
  show ?case
  proof (cases "eventBuffer w k")
    case None
    then show ?thesis using Cons.IH [of w] by auto
  next
    case (Some fe)
    then show ?thesis using Cons.IH [of "sweepEntry now k fe w"]
      by (auto simp: sweepEntry_eventBuffer sweepEntry_unknown split: option.splits)
  qed
qed

lemma sweep_unknown:
  assumes "p \<in> set ks" and "eventBuffer w p = Some fe"
  shows "filter (\<lambda>l. l = UnknownEventPattern p)
           (logged_since w (processBufferedEvents now ks w)) =
         (if \<not> StaleThreshold < now - lastSeen fe
             \<and> \<not> isNew fe \<and> \<not> isModified fe \<and> \<not> isDeleted fe
          then [UnknownEventPattern p] else [])"
proof -
  have "prefix (logged w) (logged (rangeEventBuffer now ks w))" by (rule range_prefix)
  then obtain zs where zs: "logged (rangeEventBuffer now ks w) = logged w @ zs"
    by (auto simp: prefix_def)
  then have "logged_since w (processBufferedEvents now ks w) = zs"
    by (simp add: logged_since_def processBufferedEvents_def)
  moreover from range_unknown [of p now ks w] zs assms
  have "filter (\<lambda>l. l = UnknownEventPattern p) zs =
         (if \<not> StaleThreshold < now - lastSeen fe
             \<and> \<not> isNew fe \<and> \<not> isModified fe \<and> \<not> isDeleted fe
          then [UnknownEventPattern p] else [])" by simp
  ultimately show ?thesis by simp
qed

lemma dispatched_announced:
  assumes "prefix (logged w) (logged w')"
  shows "announced p (logged w') = announced p (logged w) @ dispatched w w' p"
proof -
  from assms obtain zs where zs: "logged w' = logged w @ zs" by (auto simp: prefix_def)
  then have "logged_since w w' = zs" by (simp add: logged_since_def)
  then show ?thesis using zs by (simp add: dispatched_def announced_def List.map_filter_def)
qed

lemma sweep_dispatched:
  "dispatched w (processBufferedEvents now ks w) p =
     (if p \<in> set ks
      then (case eventBuffer w p of None \<Rightarrow> [] | Some fe \<Rightarrow> spec_sweep_entry now fe)
      else [])"
proof -
  have "prefix (logged w) (logged (rangeEventBuffer now ks w))" by (rule range_prefix)
  from dispatched_announced [OF this, of p] range_announced [of p now ks w]
  show ?thesis by (simp add: processBufferedEvents_def)
qed

lemma range_nothing_pending:
  "eventBuffer w = Map.empty \<Longrightarrow> rangeEventBuffer now ks w = w"
  by (induction ks) simp_all

text \<open>
  Claim C3. After one sweep the pending set is empty. Each entry is removed in its own
  iteration and not before: when the loop reaches a path its entry is still the one that was
  present when the timer fired, and after that iteration it is gone, whether the entry was
  resolved, dropped as stale or had no flag. A second sweep finds nothing and changes nothing.
\<close>

theorem sweep_empties_pending_set:
  assumes "distinct order" and "set order = dom (eventBuffer w)"
  shows "eventBuffer (processBufferedEvents now order w) = Map.empty
       \<and> (\<forall>xs p ys. order = xs @ p # ys \<longrightarrow>
            eventBuffer (processBufferedEvents now xs w) p = eventBuffer w p
          \<and> eventBuffer (processBufferedEvents now (xs @ [p]) w) p = None)
       \<and> processBufferedEvents now' order' (processBufferedEvents now order w)
           = processBufferedEvents now order w"
proof -
  have empty: "eventBuffer (processBufferedEvents now order w) = Map.empty"
    using assms(2) by (auto simp: processBufferedEvents_def range_eventBuffer fun_eq_iff)
  have steps: "\<forall>xs p ys. order = xs @ p # ys \<longrightarrow>
            eventBuffer (processBufferedEvents now xs w) p = eventBuffer w p
          \<and> eventBuffer (processBufferedEvents now (xs @ [p]) w) p = None"
    using assms(1) by (auto simp: processBufferedEvents_def range_eventBuffer)
  have again: "processBufferedEvents now' order' (processBufferedEvents now order w)
           = processBufferedEvents now order w"
    using empty by (simp add: processBufferedEvents_def range_nothing_pending)
  from empty steps again show ?thesis by blast
qed

theorem sweep_empties_pending_set_witness:
  "distinct [''/vault/b.md'', ''/vault/c.md'', ''/vault/a.md'']
   \<and> set [''/vault/b.md'', ''/vault/c.md'', ''/vault/a.md''] = dom (eventBuffer pending3)
   \<and> eventBuffer (processBufferedEvents 8000000000
        [''/vault/b.md'', ''/vault/c.md'', ''/vault/a.md''] pending3) = Map.empty
   \<and> eventBuffer (processBufferedEvents 8000000000 [''/vault/b.md''] pending3) ''/vault/c.md''
       = eventBuffer pending3 ''/vault/c.md''
   \<and> eventBuffer (processBufferedEvents 8000000000 [''/vault/b.md'', ''/vault/c.md''] pending3)
        ''/vault/c.md'' = None"
proof -
  have d: "distinct [''/vault/b.md'', ''/vault/c.md'', ''/vault/a.md'']" by simp
  have s: "set [''/vault/b.md'', ''/vault/c.md'', ''/vault/a.md''] = dom (eventBuffer pending3)"
    by (auto simp: pending3_def New_def)
  from sweep_empties_pending_set [OF d s, of 8000000000]
  have "eventBuffer (processBufferedEvents 8000000000
          [''/vault/b.md'', ''/vault/c.md'', ''/vault/a.md''] pending3) = Map.empty"
    and "\<forall>xs p ys. [''/vault/b.md'', ''/vault/c.md'', ''/vault/a.md''] = xs @ p # ys \<longrightarrow>
            eventBuffer (processBufferedEvents 8000000000 xs pending3) p = eventBuffer pending3 p
          \<and> eventBuffer (processBufferedEvents 8000000000 (xs @ [p]) pending3) p = None"
    by blast+
  moreover from this(2)
  have "eventBuffer (processBufferedEvents 8000000000 [''/vault/b.md''] pending3) ''/vault/c.md''
          = eventBuffer pending3 ''/vault/c.md''
      \<and> eventBuffer (processBufferedEvents 8000000000 ([''/vault/b.md''] @ [''/vault/c.md''])
          pending3) ''/vault/c.md'' = None"
    by (rule allE [where x = "[''/vault/b.md'']"]) simp
  ultimately show ?thesis using d s by simp
qed

section \<open>What ingestion does to the state\<close>

lemma bufferFileEvent_eventBuffer:
  "eventBuffer (bufferFileEvent now ev w) =
     (eventBuffer w)(Name ev \<mapsto>
        \<lparr>path = (case eventBuffer w (Name ev) of None \<Rightarrow> Name ev | Some fe \<Rightarrow> path fe),
         isNew = (flag isNew w (Name ev) \<or> Op ev AND Create = Create),
         isModified = (flag isModified w (Name ev) \<or> Op ev AND Write = Write),
         isDeleted = (flag isDeleted w (Name ev) \<or> Op ev AND Remove = Remove
                        \<or> Op ev AND Rename = Rename),
         lastSeen = now\<rparr>)"
proof (cases "eventBuffer w (Name ev)")
  case None
  then show ?thesis
    by (simp add: bufferFileEvent_def flag_def logf_def AfterFunc_def Let_def
             split: option.split prod.split)
next
  case (Some fe)
  then show ?thesis
    by (cases fe)
       (simp add: bufferFileEvent_def flag_def logf_def AfterFunc_def Let_def
             split: option.split prod.split)
qed

lemma bufferFileEvent_timers:
  "debounceTimer (bufferFileEvent now ev w) = Some (length (timers w))
   \<and> timers (bufferFileEvent now ev w) =
       (case debounceTimer w of None \<Rightarrow> timers w | Some i \<Rightarrow> timer_Stop i (timers w))
       @ [\<lparr>duration = QuietDuration, active = True\<rparr>]"
  by (simp add: bufferFileEvent_def logf_def AfterFunc_def Let_def timer_Stop_def
        QuietDuration_def Millisecond_def
           split: option.split prod.split)

lemma bufferFileEvent_rest:
  "fsWatcher (bufferFileEvent now ev w) = fsWatcher w
   \<and> done_closed (bufferFileEvent now ev w) = done_closed w
   \<and> wpath (bufferFileEvent now ev w) = wpath w
   \<and> prefix (logged w) (logged (bufferFileEvent now ev w))"
  by (simp add: bufferFileEvent_def logf_def AfterFunc_def Let_def
           split: option.split prod.split)

lemma bufferFileEvent_announced:
  "announced p (logged (bufferFileEvent now ev w)) = announced p (logged w)"
  by (simp add: bufferFileEvent_def logf_def AfterFunc_def Let_def announced_def List.map_filter_def
           split: option.split prod.split)

lemma and_bit_mask:
  fixes x :: "'a::len word"
  assumes n: "n < LENGTH('a)"
  shows "(x AND 2 ^ n = 2 ^ n) = bit x n"
proof
  assume "x AND 2 ^ n = 2 ^ n"
  then have "bit (x AND 2 ^ n) n = bit (2 ^ n :: 'a word) n" by simp
  then show "bit x n" using n by (simp add: bit_and_iff bit_exp_iff)
next
  assume b: "bit x n"
  show "x AND 2 ^ n = 2 ^ n"
    by (rule bit_word_eqI) (use b in \<open>auto simp: bit_and_iff bit_exp_iff\<close>)
qed

lemma op_bits:
  fixes x :: Op
  shows "(x AND Create = Create) = bit x 0" "(x AND Write = Write) = bit x 1"
        "(x AND Remove = Remove) = bit x 2" "(x AND Rename = Rename) = bit x 3"
  using and_bit_mask [of 0 x] and_bit_mask [of 1 x] and_bit_mask [of 2 x] and_bit_mask [of 3 x]
  by (simp_all add: Create_def Write_def Remove_def Rename_def)

section \<open>Ingestion followed by a sweep\<close>

lemma dispatched_trans:
  assumes "prefix (logged a) (logged b)" and "prefix (logged b) (logged c)"
  shows "dispatched a c p = dispatched a b p @ dispatched b c p"
proof -
  have "prefix (logged a) (logged c)" using assms by (rule prefix_order.trans)
  from dispatched_announced [OF this, of p] dispatched_announced [OF assms(1), of p]
    dispatched_announced [OF assms(2), of p]
  show ?thesis by simp
qed

lemma bufferEvent_file:
  assumes "isMarkdownFile (Name ev)" and "\<not> isDirectory e (Name ev)"
  shows "bufferEvent e now ev w = Inr (bufferFileEvent now ev w)"
  using assms by (simp add: bufferEvent_def)

lemma bufferFileEvent_dispatched: "dispatched w (bufferFileEvent now ev w) p = []"
proof -
  have "prefix (logged w) (logged (bufferFileEvent now ev w))"
    by (simp add: bufferFileEvent_rest)
  from dispatched_announced [OF this, of p] show ?thesis
    by (simp add: bufferFileEvent_announced)
qed

lemma processBufferedEvents_prefix:
  "prefix (logged w) (logged (processBufferedEvents now ks w))"
  by (simp add: processBufferedEvents_def range_prefix)

lemma isMarkdownFile_a: "isMarkdownFile ''/vault/a.md''"
  by (simp add: isMarkdownFile_def Ext_def Base_def HasPrefix_def)

lemma created_a_entry:
  "eventBuffer created_a =
     [''/vault/a.md'' \<mapsto> \<lparr>path = ''/vault/a.md'', isNew = True, isModified = False,
        isDeleted = False, lastSeen = 0\<rparr>]"
  unfolding created_a_def bufferFileEvent_eventBuffer
  by (simp add: New_def flag_def Create_def Write_def Remove_def Rename_def)

lemma written_a_entry:
  "eventBuffer written_a =
     [''/vault/a.md'' \<mapsto> \<lparr>path = ''/vault/a.md'', isNew = True, isModified = True,
        isDeleted = False, lastSeen = 10000000\<rparr>]"
  unfolding written_a_def bufferFileEvent_eventBuffer
  by (simp add: created_a_entry flag_def Create_def Write_def Remove_def Rename_def)

text \<open>
  Claim C1. When the sweep runs over the pending set, in whatever order, the logical events
  it dispatches for a pending path are those of the specification: none when
  \<open>now - lastSeen\<close> exceeds the stale threshold of 5 s, otherwise the single event of the
  table (\<open>deleted\<close> first, then \<open>created_empty\<close>, \<open>created\<close>, \<open>modified\<close>), and none for the
  entry without any flag, for which there is exactly one warning in the log instead, and only
  for such an entry. In particular a create followed by a write for a path that was not
  pending, swept within the threshold, gives exactly one \<open>created\<close> event for that path
  between the first raw event and the end of the sweep.
\<close>

theorem sweep_resolves_each_entry:
  assumes order: "set order = dom (eventBuffer w)"
  shows "(eventBuffer w p = Some fe \<longrightarrow>
            dispatched w (processBufferedEvents now order w) p = spec_sweep_entry now fe
          \<and> filter (\<lambda>l. l = UnknownEventPattern p)
                (logged_since w (processBufferedEvents now order w)) =
              (if \<not> StaleThreshold < now - lastSeen fe
                  \<and> \<not> isNew fe \<and> \<not> isModified fe \<and> \<not> isDeleted fe
               then [UnknownEventPattern p] else []))
       \<and> (\<forall>w0 e1 t1 w1 e2 t2.
            eventBuffer w0 p = None
            \<and> isMarkdownFile p \<and> \<not> isDirectory e1 p \<and> \<not> isDirectory e2 p
            \<and> bufferEvent e1 t1 \<lparr>Name = p, Op = Create\<rparr> w0 = Inr w1
            \<and> bufferEvent e2 t2 \<lparr>Name = p, Op = Write\<rparr> w1 = Inr w
            \<and> now - t2 \<le> StaleThreshold
            \<longrightarrow> dispatched w0 (processBufferedEvents now order w) p = [created])"
proof (intro conjI impI allI)
  assume "eventBuffer w p = Some fe"
  then show "dispatched w (processBufferedEvents now order w) p = spec_sweep_entry now fe"
    using order by (auto simp: sweep_dispatched)
next
  assume e: "eventBuffer w p = Some fe"
  with order have "p \<in> set order" by auto
  from sweep_unknown [OF this e]
  show "filter (\<lambda>l. l = UnknownEventPattern p)
                (logged_since w (processBufferedEvents now order w)) =
              (if \<not> StaleThreshold < now - lastSeen fe
                  \<and> \<not> isNew fe \<and> \<not> isModified fe \<and> \<not> isDeleted fe
               then [UnknownEventPattern p] else [])" .
next
  fix w0 e1 t1 w1 e2 t2
  assume a: "eventBuffer w0 p = None
            \<and> isMarkdownFile p \<and> \<not> isDirectory e1 p \<and> \<not> isDirectory e2 p
            \<and> bufferEvent e1 t1 \<lparr>Name = p, Op = Create\<rparr> w0 = Inr w1
            \<and> bufferEvent e2 t2 \<lparr>Name = p, Op = Write\<rparr> w1 = Inr w
            \<and> now - t2 \<le> StaleThreshold"
  let ?c = "\<lparr>Name = p, Op = Create\<rparr>" and ?m = "\<lparr>Name = p, Op = Write\<rparr>"
  from a have w1: "w1 = bufferFileEvent t1 ?c w0"
    using bufferEvent_file [of ?c e1 t1 w0] by simp
  from a have w: "w = bufferFileEvent t2 ?m w1"
    using bufferEvent_file [of ?m e2 t2 w1] by simp
  have b1: "eventBuffer w1 p =
      Some \<lparr>path = p, isNew = True, isModified = False, isDeleted = False, lastSeen = t1\<rparr>"
    using a unfolding w1 bufferFileEvent_eventBuffer
    by (simp add: flag_def Create_def Write_def Remove_def Rename_def)
  have b2: "eventBuffer w p =
      Some \<lparr>path = p, isNew = True, isModified = True, isDeleted = False, lastSeen = t2\<rparr>"
    unfolding w bufferFileEvent_eventBuffer using b1
    by (simp add: flag_def Create_def Write_def Remove_def Rename_def)
  have p1: "prefix (logged w0) (logged w1)" unfolding w1 by (simp add: bufferFileEvent_rest)
  have p2: "prefix (logged w1) (logged w)" unfolding w by (simp add: bufferFileEvent_rest)
  have p3: "prefix (logged w) (logged (processBufferedEvents now order w))"
    by (rule processBufferedEvents_prefix)
  have d1: "dispatched w0 w1 p = []" unfolding w1 by (rule bufferFileEvent_dispatched)
  have d2: "dispatched w1 w p = []" unfolding w by (rule bufferFileEvent_dispatched)
  have d3: "dispatched w (processBufferedEvents now order w) p = [created]"
    using order b2 a by (auto simp: sweep_dispatched spec_sweep_entry_def)
  have "dispatched w0 w p = []" using dispatched_trans [OF p1 p2, of p] d1 d2 by simp
  moreover have "prefix (logged w0) (logged w)" using p1 p2 by (rule prefix_order.trans)
  ultimately show "dispatched w0 (processBufferedEvents now order w) p = [created]"
    using dispatched_trans [OF _ p3, of w0 p] d3 by simp
qed

theorem sweep_resolves_each_entry_witness:
  "set [''/vault/a.md''] = dom (eventBuffer written_a)
   \<and> eventBuffer written_a ''/vault/a.md'' =
        Some \<lparr>path = ''/vault/a.md'', isNew = True, isModified = True, isDeleted = False,
              lastSeen = 10000000\<rparr>
   \<and> dispatched written_a (processBufferedEvents 110000000 [''/vault/a.md''] written_a)
        ''/vault/a.md'' = [created]
   \<and> eventBuffer (New ''/vault'') ''/vault/a.md'' = None
   \<and> isMarkdownFile ''/vault/a.md'' \<and> \<not> isDirectory quiet_env ''/vault/a.md''
   \<and> bufferEvent quiet_env 0 \<lparr>Name = ''/vault/a.md'', Op = Create\<rparr> (New ''/vault'')
        = Inr created_a
   \<and> bufferEvent quiet_env 10000000 \<lparr>Name = ''/vault/a.md'', Op = Write\<rparr> created_a
        = Inr written_a
   \<and> (110000000 :: int) - 10000000 \<le> StaleThreshold
   \<and> dispatched (New ''/vault'') (processBufferedEvents 110000000 [''/vault/a.md''] written_a)
        ''/vault/a.md'' = [created]"
proof -
  let ?p = "''/vault/a.md''"
  let ?fe = "\<lparr>path = ?p, isNew = True, isModified = True, isDeleted = False,
              lastSeen = 10000000\<rparr>"
  have order: "set [?p] = dom (eventBuffer written_a)" by (simp add: written_a_entry)
  have entry: "eventBuffer written_a ?p = Some ?fe" by (simp add: written_a_entry)
  have fresh: "eventBuffer (New ''/vault'') ?p = None" by (simp add: New_def)
  have nodir: "\<not> isDirectory quiet_env ?p" by (simp add: isDirectory_def quiet_env_def)
  have c: "bufferEvent quiet_env 0 \<lparr>Name = ?p, Op = Create\<rparr> (New ''/vault'') = Inr created_a"
    using isMarkdownFile_a nodir by (simp add: bufferEvent_def created_a_def)
  have m: "bufferEvent quiet_env 10000000 \<lparr>Name = ?p, Op = Write\<rparr> created_a = Inr written_a"
    using isMarkdownFile_a nodir by (simp add: bufferEvent_def written_a_def)
  have t: "(110000000 :: int) - 10000000 \<le> StaleThreshold" by (simp add: StaleThreshold_def)
  have r: "spec_sweep_entry 110000000 ?fe = [created]"
    by (simp add: spec_sweep_entry_def StaleThreshold_def)
  note inst = sweep_resolves_each_entry [OF order, of ?p ?fe 110000000]
  from inst entry r
  have one: "dispatched written_a (processBufferedEvents 110000000 [?p] written_a) ?p = [created]"
    by simp
  from inst have "eventBuffer (New ''/vault'') ?p = None
            \<and> isMarkdownFile ?p \<and> \<not> isDirectory quiet_env ?p \<and> \<not> isDirectory quiet_env ?p
            \<and> bufferEvent quiet_env 0 \<lparr>Name = ?p, Op = Create\<rparr> (New ''/vault'') = Inr created_a
            \<and> bufferEvent quiet_env 10000000 \<lparr>Name = ?p, Op = Write\<rparr> created_a = Inr written_a
            \<and> 110000000 - 10000000 \<le> StaleThreshold
            \<longrightarrow> dispatched (New ''/vault'') (processBufferedEvents 110000000 [?p] written_a) ?p
                 = [created]"
    by blast
  with fresh isMarkdownFile_a nodir c m t
  have two: "dispatched (New ''/vault'') (processBufferedEvents 110000000 [?p] written_a) ?p
                 = [created]"
    by blast
  from one two
  show ?thesis using order entry fresh isMarkdownFile_a nodir c m t by simp
qed

section \<open>Flags and the debounce timer\<close>

lemma timer_Stop_length: "length (timer_Stop i ts) = length ts"
  by (simp add: timer_Stop_def)

lemma timer_Stop_nth:
  "j < length ts \<Longrightarrow>
     timer_Stop i ts ! j = (if j = i then (ts ! j)\<lparr>active := False\<rparr> else ts ! j)"
  by (simp add: timer_Stop_def)

lemma bufferFileEvent_timer_facts:
  "debounceTimer (bufferFileEvent now ev w) = Some (length (timers w))
   \<and> length (timers (bufferFileEvent now ev w)) = Suc (length (timers w))
   \<and> timers (bufferFileEvent now ev w) ! length (timers w)
       = \<lparr>duration = QuietDuration, active = True\<rparr>
   \<and> (\<forall>i < length (timers w).
         timers (bufferFileEvent now ev w) ! i =
           (if debounceTimer w = Some i then (timers w ! i)\<lparr>active := False\<rparr>
            else timers w ! i))"
  by (cases "debounceTimer w")
     (simp_all add: bufferFileEvent_timers timer_Stop_length timer_Stop_nth nth_append)

lemma bufferFileEvent_single_timer:
  assumes "single_timer w"
  shows "single_timer (bufferFileEvent now ev w)"
  unfolding single_timer_def
proof (intro allI impI)
  fix i
  let ?w' = "bufferFileEvent now ev w"
  assume i: "i < length (timers ?w')" and a: "active (timers ?w' ! i)"
  note f = bufferFileEvent_timer_facts [of now ev w]
  show "debounceTimer ?w' = Some i"
  proof (cases "i < length (timers w)")
    case True
    with f have "timers ?w' ! i =
           (if debounceTimer w = Some i then (timers w ! i)\<lparr>active := False\<rparr>
            else timers w ! i)" by blast
    with a have "debounceTimer w \<noteq> Some i" and "active (timers w ! i)"
      by (auto split: if_splits)
    with assms True show ?thesis by (simp add: single_timer_def)
  next
    case False
    with i f have "i = length (timers w)" by simp
    with f show ?thesis by simp
  qed
qed

text \<open>
  Claim C2. For a raw event on a markdown file that is not a directory, ingestion succeeds and
  the entry of the path afterwards has each flag set if it was set before or the event carries
  the operation for it: \<open>created\<close> for create, \<open>modified\<close> for write, \<open>deleted\<close> for remove and
  for rename; no flag is cleared. Afterwards the debounce timer of the watcher is a new timer
  of 100 ms that is due, whatever the operation; the timer it replaces has been stopped, no
  other timer is touched, and if the debounce timer was the only timer due, it still is.
\<close>

theorem ingest_sets_flags_and_restarts_timer:
  assumes "isMarkdownFile (Name ev)" and "\<not> isDirectory e (Name ev)"
  shows "\<exists>w' fe'. bufferEvent e now ev w = Inr w'
      \<and> eventBuffer w' (Name ev) = Some fe'
      \<and> isNew fe' = (flag isNew w (Name ev) \<or> Op ev AND Create = Create)
      \<and> isModified fe' = (flag isModified w (Name ev) \<or> Op ev AND Write = Write)
      \<and> isDeleted fe' = (flag isDeleted w (Name ev) \<or> Op ev AND Remove = Remove
                            \<or> Op ev AND Rename = Rename)
      \<and> debounceTimer w' = Some (length (timers w))
      \<and> length (timers w') = Suc (length (timers w))
      \<and> timers w' ! length (timers w) = \<lparr>duration = QuietDuration, active = True\<rparr>
      \<and> (\<forall>i < length (timers w).
            timers w' ! i =
              (if debounceTimer w = Some i then (timers w ! i)\<lparr>active := False\<rparr>
               else timers w ! i))
      \<and> (single_timer w \<longrightarrow> single_timer w')"
proof -
  let ?w' = "bufferFileEvent now ev w"
  have "bufferEvent e now ev w = Inr ?w'" using assms by (rule bufferEvent_file)
  moreover have "\<exists>fe'. eventBuffer ?w' (Name ev) = Some fe'
      \<and> isNew fe' = (flag isNew w (Name ev) \<or> Op ev AND Create = Create)
      \<and> isModified fe' = (flag isModified w (Name ev) \<or> Op ev AND Write = Write)
      \<and> isDeleted fe' = (flag isDeleted w (Name ev) \<or> Op ev AND Remove = Remove
                            \<or> Op ev AND Rename = Rename)"
    by (simp add: bufferFileEvent_eventBuffer)
  moreover note bufferFileEvent_timer_facts [of now ev w]
  moreover have "single_timer w \<longrightarrow> single_timer ?w'"
    by (simp add: bufferFileEvent_single_timer)
  ultimately show ?thesis by blast
qed

text \<open>A write and a remove in one raw event, for a path that is pending as created.\<close>

lemma created_a_timers:
  "debounceTimer created_a = Some 0
   \<and> timers created_a = [\<lparr>duration = 100000000, active = True\<rparr>]"
  by (simp add: created_a_def bufferFileEvent_timers New_def QuietDuration_def)

theorem ingest_sets_flags_and_restarts_timer_witness:
  "isMarkdownFile ''/vault/a.md'' \<and> \<not> isDirectory quiet_env ''/vault/a.md''
   \<and> (\<exists>w' fe'.
         bufferEvent quiet_env 20000000 \<lparr>Name = ''/vault/a.md'', Op = 6\<rparr> created_a = Inr w'
       \<and> eventBuffer w' ''/vault/a.md'' = Some fe'
       \<and> isNew fe' \<and> isModified fe' \<and> isDeleted fe'
       \<and> debounceTimer w' = Some 1
       \<and> length (timers w') = 2
       \<and> timers w' ! 1 = \<lparr>duration = 100000000, active = True\<rparr>
       \<and> timers w' ! 0 = \<lparr>duration = 100000000, active = False\<rparr>)"
proof -
  let ?ev = "\<lparr>Name = ''/vault/a.md'', Op = 6\<rparr>"
  have md: "isMarkdownFile (Name ?ev)" using isMarkdownFile_a by simp
  have nd: "\<not> isDirectory quiet_env (Name ?ev)" by (simp add: isDirectory_def quiet_env_def)
  from ingest_sets_flags_and_restarts_timer [OF md nd, of 20000000 created_a]
  obtain w' fe' where
        r: "bufferEvent quiet_env 20000000 ?ev created_a = Inr w'"
    and e: "eventBuffer w' (Name ?ev) = Some fe'"
    and n: "isNew fe' = (flag isNew created_a (Name ?ev) \<or> Op ?ev AND Create = Create)"
    and m: "isModified fe' = (flag isModified created_a (Name ?ev) \<or> Op ?ev AND Write = Write)"
    and d: "isDeleted fe' = (flag isDeleted created_a (Name ?ev) \<or> Op ?ev AND Remove = Remove
                            \<or> Op ?ev AND Rename = Rename)"
    and t: "debounceTimer w' = Some (length (timers created_a))"
    and l: "length (timers w') = Suc (length (timers created_a))"
    and k: "timers w' ! length (timers created_a) = \<lparr>duration = QuietDuration, active = True\<rparr>"
    and o: "\<forall>i < length (timers created_a).
            timers w' ! i =
              (if debounceTimer created_a = Some i then (timers created_a ! i)\<lparr>active := False\<rparr>
               else timers created_a ! i)"
    by blast
  from n have "isNew fe'" by (simp add: flag_def created_a_entry)
  moreover from m have "isModified fe'" by (simp add: Write_def)
  moreover from d have "isDeleted fe'" by (simp add: Remove_def)
  moreover from t have "debounceTimer w' = Some 1" by (simp add: created_a_timers)
  moreover from l have "length (timers w') = 2" by (simp add: created_a_timers)
  moreover from k have "timers w' ! 1 = \<lparr>duration = 100000000, active = True\<rparr>"
    by (simp add: created_a_timers QuietDuration_def)
  moreover from o have "timers w' ! 0 = \<lparr>duration = 100000000, active = False\<rparr>"
    by (simp add: created_a_timers)
  moreover from e have "eventBuffer w' ''/vault/a.md'' = Some fe'" by simp
  ultimately show ?thesis using r md nd by auto
qed

section \<open>The pending set under ingestion\<close>

lemma handleDirectoryEvent_eventBuffer:
  "handleDirectoryEvent e ev w = Inr w' \<Longrightarrow> eventBuffer w' = eventBuffer w"
  by (auto simp: handleDirectoryEvent_def logf_def Let_def split: if_splits option.splits prod.splits)

lemma bufferEvent_other_paths:
  assumes "bufferEvent e now ev w = Inr w'" and "q \<noteq> Name ev"
  shows "eventBuffer w' q = eventBuffer w q"
  using assms
  by (auto simp: bufferEvent_def bufferFileEvent_eventBuffer
           dest: handleDirectoryEvent_eventBuffer split: if_splits)

lemma bufferEvent_not_file:
  assumes "bufferEvent e now ev w = Inr w'"
    and "\<not> (isMarkdownFile (Name ev) \<and> \<not> isDirectory e (Name ev))"
  shows "eventBuffer w' = eventBuffer w"
  using assms
  by (auto simp: bufferEvent_def dest: handleDirectoryEvent_eventBuffer split: if_splits)

text \<open>
  Claim C4. The pending set is a Go map from paths to entries, so a path has at most one entry
  by construction; what ingestion does to the map is this. No raw event touches the entry of
  another path. A raw event on a markdown file that is not a directory, for a path that is
  pending, replaces the entry by the same entry with \<open>lastSeen\<close> set to the current time and the
  flags of the event added, and the set of pending paths stays the same; for a path that is not
  pending it adds one entry under that path, seen at the current time, and the pending set
  grows by exactly that path. Any other raw event leaves the pending set as it was.
\<close>

theorem one_entry_per_path:
  assumes "bufferEvent e now ev w = Inr w'"
  shows "(\<forall>q. q \<noteq> Name ev \<longrightarrow> eventBuffer w' q = eventBuffer w q)
       \<and> (isMarkdownFile (Name ev) \<and> \<not> isDirectory e (Name ev) \<longrightarrow>
            (case eventBuffer w (Name ev) of
               Some fe \<Rightarrow>
                 eventBuffer w' (Name ev) =
                   Some (fe\<lparr>lastSeen := now,
                            isNew := isNew fe \<or> Op ev AND Create = Create,
                            isModified := isModified fe \<or> Op ev AND Write = Write,
                            isDeleted := isDeleted fe \<or> Op ev AND Remove = Remove
                                           \<or> Op ev AND Rename = Rename\<rparr>)
                 \<and> dom (eventBuffer w') = dom (eventBuffer w)
             | None \<Rightarrow>
                 eventBuffer w' (Name ev) =
                   Some \<lparr>path = Name ev,
                         isNew = (Op ev AND Create = Create),
                         isModified = (Op ev AND Write = Write),
                         isDeleted = (Op ev AND Remove = Remove \<or> Op ev AND Rename = Rename),
                         lastSeen = now\<rparr>
                 \<and> dom (eventBuffer w') = insert (Name ev) (dom (eventBuffer w))
                 \<and> (finite (dom (eventBuffer w)) \<longrightarrow>
                      card (dom (eventBuffer w')) = Suc (card (dom (eventBuffer w))))))
       \<and> (\<not> (isMarkdownFile (Name ev) \<and> \<not> isDirectory e (Name ev)) \<longrightarrow>
            eventBuffer w' = eventBuffer w)"
proof (intro conjI allI impI)
  fix q assume "q \<noteq> Name ev"
  with assms show "eventBuffer w' q = eventBuffer w q" by (rule bufferEvent_other_paths)
next
  assume "\<not> (isMarkdownFile (Name ev) \<and> \<not> isDirectory e (Name ev))"
  with assms show "eventBuffer w' = eventBuffer w" by (rule bufferEvent_not_file)
next
  assume q: "isMarkdownFile (Name ev) \<and> \<not> isDirectory e (Name ev)"
  with assms have w': "w' = bufferFileEvent now ev w" by (simp add: bufferEvent_file)
  show "case eventBuffer w (Name ev) of
               Some fe \<Rightarrow>
                 eventBuffer w' (Name ev) =
                   Some (fe\<lparr>lastSeen := now,
                            isNew := isNew fe \<or> Op ev AND Create = Create,
                            isModified := isModified fe \<or> Op ev AND Write = Write,
                            isDeleted := isDeleted fe \<or> Op ev AND Remove = Remove
                                           \<or> Op ev AND Rename = Rename\<rparr>)
                 \<and> dom (eventBuffer w') = dom (eventBuffer w)
             | None \<Rightarrow>
                 eventBuffer w' (Name ev) =
                   Some \<lparr>path = Name ev,
                         isNew = (Op ev AND Create = Create),
                         isModified = (Op ev AND Write = Write),
                         isDeleted = (Op ev AND Remove = Remove \<or> Op ev AND Rename = Rename),
                         lastSeen = now\<rparr>
                 \<and> dom (eventBuffer w') = insert (Name ev) (dom (eventBuffer w))
                 \<and> (finite (dom (eventBuffer w)) \<longrightarrow>
                      card (dom (eventBuffer w')) = Suc (card (dom (eventBuffer w))))"
  proof (cases "eventBuffer w (Name ev)")
    case None
    then have "Name ev \<notin> dom (eventBuffer w)" by (simp add: domIff)
    then show ?thesis using None unfolding w' bufferFileEvent_eventBuffer
      by (simp add: flag_def)
  next
    case (Some fe)
    then have "insert (Name ev) (dom (eventBuffer w)) = dom (eventBuffer w)" by auto
    then show ?thesis using Some unfolding w' bufferFileEvent_eventBuffer
      by (cases fe) (simp add: flag_def)
  qed
qed

theorem one_entry_per_path_witness:
  "bufferEvent quiet_env 10000000 \<lparr>Name = ''/vault/a.md'', Op = Write\<rparr> created_a = Inr written_a
   \<and> isMarkdownFile ''/vault/a.md'' \<and> \<not> isDirectory quiet_env ''/vault/a.md''
   \<and> eventBuffer created_a ''/vault/a.md'' =
        Some \<lparr>path = ''/vault/a.md'', isNew = True, isModified = False, isDeleted = False,
              lastSeen = 0\<rparr>
   \<and> eventBuffer written_a ''/vault/a.md'' =
        Some \<lparr>path = ''/vault/a.md'', isNew = True, isModified = True, isDeleted = False,
              lastSeen = 10000000\<rparr>
   \<and> dom (eventBuffer written_a) = dom (eventBuffer created_a)
   \<and> eventBuffer written_a ''/vault/b.md'' = eventBuffer created_a ''/vault/b.md''
   \<and> bufferEvent quiet_env 0 \<lparr>Name = ''/vault/a.md'', Op = Create\<rparr> (New ''/vault'')
        = Inr created_a
   \<and> eventBuffer (New ''/vault'') ''/vault/a.md'' = None
   \<and> finite (dom (eventBuffer (New ''/vault'')))
   \<and> dom (eventBuffer created_a) = insert ''/vault/a.md'' (dom (eventBuffer (New ''/vault'')))
   \<and> card (dom (eventBuffer created_a)) = Suc (card (dom (eventBuffer (New ''/vault''))))"
proof -
  let ?ev = "\<lparr>Name = ''/vault/a.md'', Op = Write\<rparr>"
  let ?cr = "\<lparr>Name = ''/vault/a.md'', Op = Create\<rparr>"
  have nd: "\<not> isDirectory quiet_env ''/vault/a.md''" by (simp add: isDirectory_def quiet_env_def)
  have r: "bufferEvent quiet_env 10000000 ?ev created_a = Inr written_a"
    using isMarkdownFile_a nd by (simp add: bufferEvent_def written_a_def)
  have old: "eventBuffer created_a ''/vault/a.md'' =
        Some \<lparr>path = ''/vault/a.md'', isNew = True, isModified = False, isDeleted = False,
              lastSeen = 0\<rparr>" by (simp add: created_a_entry)
  from one_entry_per_path [OF r] isMarkdownFile_a nd old
  have 1: "eventBuffer written_a ''/vault/a.md'' =
        Some \<lparr>path = ''/vault/a.md'', isNew = True, isModified = True, isDeleted = False,
              lastSeen = 10000000\<rparr>
      \<and> dom (eventBuffer written_a) = dom (eventBuffer created_a)
      \<and> eventBuffer written_a ''/vault/b.md'' = eventBuffer created_a ''/vault/b.md''"
    by (simp add: Create_def Write_def Remove_def Rename_def)
  have c: "bufferEvent quiet_env 0 ?cr (New ''/vault'') = Inr created_a"
    using isMarkdownFile_a nd by (simp add: bufferEvent_def created_a_def)
  have fresh: "eventBuffer (New ''/vault'') ''/vault/a.md'' = None" by (simp add: New_def)
  have fin: "finite (dom (eventBuffer (New ''/vault'')))" by (simp add: New_def)
  from one_entry_per_path [OF c] isMarkdownFile_a nd fin
  have 2: "dom (eventBuffer created_a) = insert ''/vault/a.md'' (dom (eventBuffer (New ''/vault'')))
      \<and> card (dom (eventBuffer created_a)) = Suc (card (dom (eventBuffer (New ''/vault''))))"
    by (simp add: New_def)
  from 1 2 r c isMarkdownFile_a nd old fresh fin show ?thesis
    by - (elim conjE, (intro conjI; assumption))
qed

section \<open>The markdown filter\<close>

lemma HasPrefix_iff_prefix: "HasPrefix s pre \<longleftrightarrow> prefix pre s"
proof
  assume "HasPrefix s pre"
  then have "s = pre @ drop (length pre) s"
    by (metis HasPrefix_def append_take_drop_id)
  then show "prefix pre s" by (metis prefixI)
next
  assume "prefix pre s"
  then show "HasPrefix s pre" by (auto simp: HasPrefix_def prefix_def)
qed

lemma Ext_loop_dot:
  "Ext_loop rs acc \<noteq> [] \<Longrightarrow>
     \<exists>pre rest. rs = pre @ CHR ''.'' # rest \<and> Ext_loop rs acc = CHR ''.'' # rev pre @ acc"
proof (induction rs arbitrary: acc)
  case Nil
  then show ?case by simp
next
  case (Cons c rs)
  show ?case
  proof (cases "c = CHR ''/''")
    case True
    with Cons.prems show ?thesis by simp
  next
    case False
    show ?thesis
    proof (cases "c = CHR ''.''")
      case True
      then have "c # rs = [] @ CHR ''.'' # rs \<and> Ext_loop (c # rs) acc = CHR ''.'' # rev [] @ acc"
        by simp
      then show ?thesis by blast
    next
      case dot: False
      with False Cons.prems have "Ext_loop rs (c # acc) \<noteq> []" by simp
      from Cons.IH [OF this] obtain pre rest where
        "rs = pre @ CHR ''.'' # rest" and "Ext_loop rs (c # acc) = CHR ''.'' # rev pre @ c # acc"
        by blast
      with False dot have "c # rs = (c # pre) @ CHR ''.'' # rest
          \<and> Ext_loop (c # rs) acc = CHR ''.'' # rev (c # pre) @ acc" by simp
      then show ?thesis by blast
    qed
  qed
qed

lemma Ext_md_iff_suffix: "Ext p = ''.md'' \<longleftrightarrow> suffix ''.md'' p"
proof
  assume a: "Ext p = ''.md''"
  then have "Ext_loop (rev p) [] \<noteq> []" by (simp add: Ext_def)
  from Ext_loop_dot [OF this] obtain pre rest where
    r: "rev p = pre @ CHR ''.'' # rest" and e: "Ext_loop (rev p) [] = CHR ''.'' # rev pre @ []"
    by blast
  from a e have "rev pre = ''md''" by (simp add: Ext_def)
  then have "pre = rev ''md''" by (metis rev_rev_ident)
  with r have "rev p = rev ''md'' @ CHR ''.'' # rest" by simp
  then have "p = rev (rev ''md'' @ CHR ''.'' # rest)" by (metis rev_rev_ident)
  then have "p = rev rest @ ''.md''" by simp
  then show "suffix ''.md'' p" by (simp add: suffix_def)
next
  assume "suffix ''.md'' p"
  then obtain q where "p = q @ ''.md''" by (auto simp: suffix_def)
  then show "Ext p = ''.md''" by (simp add: Ext_def)
qed

lemma Base_md: "suffix ''.md'' p \<Longrightarrow> Base p = last_element p"
proof -
  assume "suffix ''.md'' p"
  then obtain q where p: "p = q @ ''.md''" by (auto simp: suffix_def)
  then show ?thesis by (simp add: Base_def last_element_def Let_def)
qed

lemma isMarkdownFile_iff:
  "isMarkdownFile f \<longleftrightarrow>
     suffix ''.md'' f \<and> \<not> prefix ''.'' (last_element f) \<and> \<not> prefix ''~'' (last_element f)"
  by (auto simp: isMarkdownFile_def Ext_md_iff_suffix Base_md HasPrefix_iff_prefix Let_def)

text \<open>
  Claim C5. A path passes the markdown filter exactly when its extension, as \<open>filepath.Ext\<close>
  gives it, is the string \<open>.md\<close> byte for byte, and its base name, as \<open>filepath.Base\<close> gives
  it, starts neither with a dot nor with a tilde; said on the path itself: it ends in \<open>.md\<close>
  and what follows its last slash starts neither with a dot nor with a tilde. A raw event
  whose path neither passes the filter nor is a directory is dropped: the call returns the
  state as it was, with the pending set, the timers and the log untouched.
\<close>

theorem markdown_filter:
  "(isMarkdownFile f \<longleftrightarrow>
      Ext f = ''.md'' \<and> \<not> HasPrefix (Base f) ''.'' \<and> \<not> HasPrefix (Base f) ''~'')
   \<and> (isMarkdownFile f \<longleftrightarrow>
        suffix ''.md'' f \<and> \<not> prefix ''.'' (last_element f) \<and> \<not> prefix ''~'' (last_element f))
   \<and> (\<not> isMarkdownFile (Name ev) \<and> \<not> isDirectory e (Name ev) \<longrightarrow>
        bufferEvent e now ev w = Inr w)"
proof (intro conjI)
  show "isMarkdownFile f \<longleftrightarrow>
      Ext f = ''.md'' \<and> \<not> HasPrefix (Base f) ''.'' \<and> \<not> HasPrefix (Base f) ''~''"
    by (simp add: isMarkdownFile_def Let_def)
  show "isMarkdownFile f \<longleftrightarrow>
        suffix ''.md'' f \<and> \<not> prefix ''.'' (last_element f) \<and> \<not> prefix ''~'' (last_element f)"
    by (rule isMarkdownFile_iff)
  show "\<not> isMarkdownFile (Name ev) \<and> \<not> isDirectory e (Name ev) \<longrightarrow>
        bufferEvent e now ev w = Inr w"
    by (simp add: bufferEvent_def)
qed

lemma markdown_filter_examples:
  "isMarkdownFile ''notes/a.md''" "\<not> isMarkdownFile ''notes/a.MD''"
  "\<not> isMarkdownFile ''notes/.a.md''" "\<not> isMarkdownFile ''notes/~a.md''"
  "\<not> isMarkdownFile ''notes/.md''" "\<not> isMarkdownFile ''notes/a.md/''"
  "\<not> isMarkdownFile ''notes/a.txt''" "isMarkdownFile ''.hidden/a.md''"
  by (simp_all add: isMarkdownFile_def Ext_def Base_def HasPrefix_def)

theorem markdown_filter_witness:
  "\<not> isMarkdownFile ''/vault/a.txt'' \<and> \<not> isDirectory quiet_env ''/vault/a.txt''
   \<and> bufferEvent quiet_env 30000000 \<lparr>Name = ''/vault/a.txt'', Op = Create\<rparr> created_a
       = Inr created_a
   \<and> isMarkdownFile ''/vault/a.md''
   \<and> Ext ''/vault/a.md'' = ''.md'' \<and> Base ''/vault/a.md'' = ''a.md''"
proof -
  have n: "\<not> isMarkdownFile ''/vault/a.txt''"
    by (simp add: isMarkdownFile_def Ext_def)
  have d: "\<not> isDirectory quiet_env ''/vault/a.txt''" by (simp add: isDirectory_def quiet_env_def)
  from markdown_filter [of "''/vault/a.md''" "\<lparr>Name = ''/vault/a.txt'', Op = Create\<rparr>"
      quiet_env 30000000 created_a] n d
  have "bufferEvent quiet_env 30000000 \<lparr>Name = ''/vault/a.txt'', Op = Create\<rparr> created_a
       = Inr created_a" by simp
  moreover have "Ext ''/vault/a.md'' = ''.md''" by (simp add: Ext_def)
  moreover have "Base ''/vault/a.md'' = ''a.md''" by (simp add: Base_def)
  ultimately show ?thesis using n d isMarkdownFile_a by simp
qed

section \<open>Flags over a window\<close>

lemma handleDirectoryEvent_fsWatcher:
  assumes "fsWatcher w \<noteq> None"
  shows "\<exists>w'. handleDirectoryEvent e ev w = Inr w' \<and> fsWatcher w' \<noteq> None"
  using assms
  by (auto simp: handleDirectoryEvent_def logf_def Let_def split: option.splits prod.splits)

lemma bufferEvent_no_panic:
  assumes "fsWatcher w \<noteq> None"
  shows "\<exists>w'. bufferEvent e now ev w = Inr w' \<and> fsWatcher w' \<noteq> None"
proof (cases "isDirectory e (Name ev)")
  case True
  then show ?thesis using handleDirectoryEvent_fsWatcher [OF assms, of e ev]
    by (simp add: bufferEvent_def)
next
  case False
  then show ?thesis using assms by (simp add: bufferEvent_def bufferFileEvent_rest)
qed

lemma bufferEvent_monotone:
  assumes "bufferEvent e now ev w = Inr w'" and "eventBuffer w p = Some fe"
  shows "\<exists>fe'. eventBuffer w' p = Some fe'
       \<and> (isNew fe \<longrightarrow> isNew fe') \<and> (isModified fe \<longrightarrow> isModified fe')
       \<and> (isDeleted fe \<longrightarrow> isDeleted fe')"
proof (cases "isMarkdownFile (Name ev) \<and> \<not> isDirectory e (Name ev)")
  case False
  with assms(1) have "eventBuffer w' = eventBuffer w" by (rule bufferEvent_not_file)
  with assms(2) show ?thesis by simp
next
  case True
  with assms(1) have w': "w' = bufferFileEvent now ev w" by (simp add: bufferEvent_file)
  show ?thesis
  proof (cases "p = Name ev")
    case False
    with assms(2) show ?thesis unfolding w' bufferFileEvent_eventBuffer by simp
  next
    case True
    with assms(2) show ?thesis unfolding w' bufferFileEvent_eventBuffer
      by (simp add: flag_def)
  qed
qed

lemma watch_loop_monotone:
  assumes "fsWatcher w \<noteq> None" and "eventBuffer w p = Some fe"
  shows "\<exists>w' fe'. watch_loop items w = Inr w' \<and> eventBuffer w' p = Some fe'
       \<and> (isNew fe \<longrightarrow> isNew fe') \<and> (isModified fe \<longrightarrow> isModified fe')
       \<and> (isDeleted fe \<longrightarrow> isDeleted fe')"
  using assms
proof (induction items arbitrary: w fe)
  case Nil
  then show ?case by simp
next
  case (Cons item items)
  show ?case
  proof (cases item)
    case (RawError err)
    have "fsWatcher (logf (WatchError err) w) \<noteq> None"
      and "eventBuffer (logf (WatchError err) w) p = Some fe"
      using Cons.prems by (simp_all add: logf_def)
    from Cons.IH [OF this] show ?thesis using RawError by simp
  next
    case (RawEvent e now ev)
    from bufferEvent_no_panic [OF Cons.prems(1), of e now ev] obtain w1 where
      w1: "bufferEvent e now ev w = Inr w1" and f1: "fsWatcher w1 \<noteq> None" by blast
    from bufferEvent_monotone [OF w1 Cons.prems(2)] obtain fe1 where
      e1: "eventBuffer w1 p = Some fe1" and
      m1: "(isNew fe \<longrightarrow> isNew fe1) \<and> (isModified fe \<longrightarrow> isModified fe1)
            \<and> (isDeleted fe \<longrightarrow> isDeleted fe1)" by blast
    from Cons.IH [OF f1 e1] obtain w' fe' where
      "watch_loop items w1 = Inr w'" and "eventBuffer w' p = Some fe'" and
      "(isNew fe1 \<longrightarrow> isNew fe') \<and> (isModified fe1 \<longrightarrow> isModified fe')
            \<and> (isDeleted fe1 \<longrightarrow> isDeleted fe')" by blast
    with m1 w1 RawEvent show ?thesis by auto
  qed
qed

lemma deleted_resolves:
  assumes "eventBuffer w p = Some fe" and "isDeleted fe" and "set order = dom (eventBuffer w)"
    and "now - lastSeen fe \<le> StaleThreshold"
  shows "dispatched w (processBufferedEvents now order w) p = [deleted]"
proof -
  from assms(1,3) have "p \<in> set order" by auto
  with assms show ?thesis by (simp add: sweep_dispatched spec_sweep_entry_def)
qed

text \<open>
  Claim C10. While the event loop runs on a watcher whose notification source exists, it does
  not panic and the flags of a pending entry only grow: whatever raw events and errors arrive,
  for whatever paths, the entry is still pending afterwards and every flag that was set is
  still set. So once a remove or a rename of a markdown file has been ingested, whatever
  follows in the same window, the entry of that path has \<open>deleted\<close> set, the table resolves it
  to \<open>deleted\<close>, and a sweep within the stale threshold dispatches exactly one \<open>deleted\<close>
  event for it.
\<close>

theorem flags_monotone_deleted_wins:
  assumes "fsWatcher w \<noteq> None"
  shows "(\<forall>fe. eventBuffer w p = Some fe \<longrightarrow>
           (\<exists>w' fe'. watch_loop items w = Inr w' \<and> eventBuffer w' p = Some fe'
              \<and> (isNew fe \<longrightarrow> isNew fe') \<and> (isModified fe \<longrightarrow> isModified fe')
              \<and> (isDeleted fe \<longrightarrow> isDeleted fe')))
       \<and> (isMarkdownFile p \<and> \<not> isDirectory e p
            \<and> (Op ev AND Remove = Remove \<or> Op ev AND Rename = Rename) \<and> Name ev = p \<longrightarrow>
           (\<exists>w' fe'. watch_loop (RawEvent e t ev # items) w = Inr w'
              \<and> eventBuffer w' p = Some fe' \<and> isDeleted fe'
              \<and> spec_resolution (isNew fe') (isModified fe') (isDeleted fe') = Some deleted
              \<and> (\<forall>now order. set order = dom (eventBuffer w')
                     \<and> now - lastSeen fe' \<le> StaleThreshold \<longrightarrow>
                   dispatched w' (processBufferedEvents now order w') p = [deleted])))"
proof (intro conjI allI impI)
  fix fe assume "eventBuffer w p = Some fe"
  with assms show "\<exists>w' fe'. watch_loop items w = Inr w' \<and> eventBuffer w' p = Some fe'
              \<and> (isNew fe \<longrightarrow> isNew fe') \<and> (isModified fe \<longrightarrow> isModified fe')
              \<and> (isDeleted fe \<longrightarrow> isDeleted fe')"
    by (rule watch_loop_monotone)
next
  assume a: "isMarkdownFile p \<and> \<not> isDirectory e p
            \<and> (Op ev AND Remove = Remove \<or> Op ev AND Rename = Rename) \<and> Name ev = p"
  let ?w1 = "bufferFileEvent t ev w"
  from a have w1: "bufferEvent e t ev w = Inr ?w1" by (simp add: bufferEvent_file)
  have f1: "fsWatcher ?w1 \<noteq> None" using assms by (simp add: bufferFileEvent_rest)
  from a obtain fe1 where e1: "eventBuffer ?w1 p = Some fe1" and d1: "isDeleted fe1"
    by (auto simp: bufferFileEvent_eventBuffer)
  from watch_loop_monotone [OF f1 e1, of items] d1 obtain w' fe' where
    r: "watch_loop items ?w1 = Inr w'" and e': "eventBuffer w' p = Some fe'"
    and d': "isDeleted fe'" by blast
  have "watch_loop (RawEvent e t ev # items) w = Inr w'" using w1 r by simp
  moreover have "spec_resolution (isNew fe') (isModified fe') (isDeleted fe') = Some deleted"
    using d' by simp
  moreover have "\<forall>now order. set order = dom (eventBuffer w')
                     \<and> now - lastSeen fe' \<le> StaleThreshold \<longrightarrow>
                   dispatched w' (processBufferedEvents now order w') p = [deleted]"
    using deleted_resolves [OF e' d'] by blast
  ultimately show "\<exists>w' fe'. watch_loop (RawEvent e t ev # items) w = Inr w'
              \<and> eventBuffer w' p = Some fe' \<and> isDeleted fe'
              \<and> spec_resolution (isNew fe') (isModified fe') (isDeleted fe') = Some deleted
              \<and> (\<forall>now order. set order = dom (eventBuffer w')
                     \<and> now - lastSeen fe' \<le> StaleThreshold \<longrightarrow>
                   dispatched w' (processBufferedEvents now order w') p = [deleted])"
    using e' d' by blast
qed

lemma renamed_a_entry:
  "eventBuffer renamed_a =
     [''/vault/a.md'' \<mapsto> \<lparr>path = ''/vault/a.md'', isNew = False, isModified = False,
        isDeleted = True, lastSeen = 0\<rparr>]"
  unfolding renamed_a_def bufferFileEvent_eventBuffer
  by (simp add: started_def New_def flag_def Create_def Write_def Remove_def Rename_def)

lemma saved_a_entry:
  "eventBuffer saved_a =
     [''/vault/a.md'' \<mapsto> \<lparr>path = ''/vault/a.md'', isNew = True, isModified = True,
        isDeleted = True, lastSeen = 20000000\<rparr>]"
  by (simp add: saved_a_def bufferFileEvent_eventBuffer renamed_a_entry flag_def
        Create_def Write_def Remove_def Rename_def)

theorem flags_monotone_deleted_wins_witness:
  "fsWatcher started \<noteq> None
   \<and> isMarkdownFile ''/vault/a.md'' \<and> \<not> isDirectory quiet_env ''/vault/a.md''
   \<and> (Rename AND Remove = Remove \<or> Rename AND Rename = Rename)
   \<and> watch_loop
        [RawEvent quiet_env 0 \<lparr>Name = ''/vault/a.md'', Op = Rename\<rparr>,
         RawEvent quiet_env 10000000 \<lparr>Name = ''/vault/a.md'', Op = Create\<rparr>,
         RawEvent quiet_env 20000000 \<lparr>Name = ''/vault/a.md'', Op = Write\<rparr>] started
       = Inr saved_a
   \<and> eventBuffer saved_a ''/vault/a.md'' =
        Some \<lparr>path = ''/vault/a.md'', isNew = True, isModified = True, isDeleted = True,
              lastSeen = 20000000\<rparr>
   \<and> set [''/vault/a.md''] = dom (eventBuffer saved_a)
   \<and> (120000000 :: int) - 20000000 \<le> StaleThreshold
   \<and> dispatched saved_a (processBufferedEvents 120000000 [''/vault/a.md''] saved_a)
        ''/vault/a.md'' = [deleted]"
proof -
  let ?p = "''/vault/a.md''"
  let ?rn = "\<lparr>Name = ?p, Op = Rename\<rparr>"
  let ?rest = "[RawEvent quiet_env 10000000 \<lparr>Name = ?p, Op = Create\<rparr>,
                RawEvent quiet_env 20000000 \<lparr>Name = ?p, Op = Write\<rparr>]"
  let ?fe = "\<lparr>path = ?p, isNew = True, isModified = True, isDeleted = True,
              lastSeen = 20000000\<rparr>"
  have f: "fsWatcher started \<noteq> None" by (simp add: started_def)
  have nd: "\<not> isDirectory quiet_env ?p" by (simp add: isDirectory_def quiet_env_def)
  have op: "Rename AND Remove = Remove \<or> Rename AND Rename = Rename" by simp
  have run: "watch_loop (RawEvent quiet_env 0 ?rn # ?rest) started = Inr saved_a"
    using isMarkdownFile_a nd by (simp add: bufferEvent_def saved_a_def renamed_a_def)
  have entry: "eventBuffer saved_a ?p = Some ?fe" by (simp add: saved_a_entry)
  have order: "set [?p] = dom (eventBuffer saved_a)" by (simp add: saved_a_entry)
  have t: "(120000000 :: int) - 20000000 \<le> StaleThreshold" by (simp add: StaleThreshold_def)
  from flags_monotone_deleted_wins
         [OF f, where p = ?p and e = quiet_env and ev = ?rn and t = 0 and items = ?rest]
  have "isMarkdownFile ?p \<and> \<not> isDirectory quiet_env ?p
            \<and> (Op ?rn AND Remove = Remove \<or> Op ?rn AND Rename = Rename) \<and> Name ?rn = ?p \<longrightarrow>
           (\<exists>w' fe'. watch_loop (RawEvent quiet_env 0 ?rn # ?rest) started = Inr w'
              \<and> eventBuffer w' ?p = Some fe' \<and> isDeleted fe'
              \<and> spec_resolution (isNew fe') (isModified fe') (isDeleted fe') = Some deleted
              \<and> (\<forall>now order. set order = dom (eventBuffer w')
                     \<and> now - lastSeen fe' \<le> StaleThreshold \<longrightarrow>
                   dispatched w' (processBufferedEvents now order w') ?p = [deleted]))"
    by (rule conjunct2)
  with isMarkdownFile_a nd op obtain w' fe' where
    r: "watch_loop (RawEvent quiet_env 0 ?rn # ?rest) started = Inr w'"
    and e: "eventBuffer w' ?p = Some fe'"
    and s: "\<forall>now order. set order = dom (eventBuffer w')
                     \<and> now - lastSeen fe' \<le> StaleThreshold \<longrightarrow>
                   dispatched w' (processBufferedEvents now order w') ?p = [deleted]"
    by auto
  from r run have w': "w' = saved_a" by simp
  with e entry have fe': "fe' = ?fe" by simp
  from s have "set [?p] = dom (eventBuffer w') \<and> 120000000 - lastSeen fe' \<le> StaleThreshold
      \<longrightarrow> dispatched w' (processBufferedEvents 120000000 [?p] w') ?p = [deleted]"
    by blast
  with order t have d: "dispatched saved_a (processBufferedEvents 120000000 [?p] saved_a) ?p
      = [deleted]"
    unfolding w' fe' by simp
  from f isMarkdownFile_a nd op run entry order t d show ?thesis
    by - (intro conjI; assumption)
qed

section \<open>Properties of the lifecycle\<close>

lemma Start_vault:
  "Start vault_env (New ''/vault'') =
     (WaitsForDone,
      \<lparr>wpath = ''/vault'',
       fsWatcher = Some \<lparr>watches = {''/vault'', ''/vault/a.md'', ''/vault/notes'',
                                      ''/vault/notes/b.md''},
                          closed = False\<rparr>,
       done_closed = False, eventBuffer = Map.empty, debounceTimer = None, timers = [],
       logged = [AddedDirectoryToWatch ''/vault'', AddedDirectoryToWatch ''/vault/a.md'',
                 AddedDirectoryToWatch ''/vault/notes'',
                 AddedDirectoryToWatch ''/vault/notes/b.md'',
                 WatchingForChanges ''/vault'']\<rparr>)"
  by (simp add: Start_def vault_env_def vault_tree_def New_def addRecursive_def WalkDir_def
        addRecursive_fn_def Add_def HasPrefix_def Join_def logf_def receive_done_def Let_def
        insert_commute)

lemma running_eq:
  "running =
      \<lparr>wpath = ''/vault'',
       fsWatcher = Some \<lparr>watches = {''/vault'', ''/vault/a.md'', ''/vault/notes'',
                                      ''/vault/notes/b.md''},
                          closed = False\<rparr>,
       done_closed = False, eventBuffer = Map.empty, debounceTimer = None, timers = [],
       logged = [AddedDirectoryToWatch ''/vault'', AddedDirectoryToWatch ''/vault/a.md'',
                 AddedDirectoryToWatch ''/vault/notes'',
                 AddedDirectoryToWatch ''/vault/notes/b.md'',
                 WatchingForChanges ''/vault'']\<rparr>"
  by (simp add: running_def Start_vault)

lemma Stop_nil: "fsWatcher w = None \<Longrightarrow> Stop e w = Inr (None, w)"
  by (simp add: Stop_def)

lemma Stop_open:
  assumes "fsWatcher w = Some fw" and "\<not> done_closed w"
  shows "Stop e w =
           Inr ((if closed fw then None else closeErr e),
                w\<lparr>done_closed := True, fsWatcher := Some (fw\<lparr>closed := True\<rparr>)\<rparr>)"
  using assms by (cases fw) (simp add: Stop_def Close_def Let_def)

lemma Stop_closed:
  assumes "fsWatcher w = Some fw" and "done_closed w"
  shows "Stop e w = Inl CloseOfClosedChannel"
  using assms by (simp add: Stop_def)

text \<open>
  Claim C8, as stated, fails: after \<open>Start\<close> on the example vault and one \<open>Stop\<close>, the
  notification source is still non-nil, and a further \<open>Stop\<close> closes nothing and signals
  nothing: it panics on closing the closed channel.
\<close>

theorem stop_after_stop_panics:
  "Start vault_env (New ''/vault'') = (WaitsForDone, running)
   \<and> Stop vault_env running = Inr (None, stopped)
   \<and> fsWatcher stopped \<noteq> None
   \<and> Stop vault_env stopped = Inl CloseOfClosedChannel"
proof -
  have s: "Start vault_env (New ''/vault'') = (WaitsForDone, running)"
    by (simp add: running_def Start_vault)
  have 1: "Stop vault_env running = Inr (None, stopped)"
    by (simp add: Stop_def Close_def stopped_def running_eq vault_env_def Let_def)
  have 2: "fsWatcher stopped \<noteq> None" by (simp add: stopped_def)
  have 3: "Stop vault_env stopped = Inl CloseOfClosedChannel"
    by (simp add: Stop_def stopped_def)
  from s 1 2 3 show ?thesis by - (intro conjI; assumption)
qed

text \<open>
  Claim C8, amended. \<open>Stop\<close> on a watcher whose notification source is nil, as it is before
  \<open>Start\<close>, returns nil and the state as it was. \<open>Stop\<close> on a watcher whose source is non-nil
  and whose \<open>done\<close> channel has not been closed yet closes \<open>done\<close> and the source, returns
  what closing the source returned, changes nothing else, and a \<open>Start\<close> that was parked at
  the receive from \<open>done\<close> now returns nil.
\<close>

theorem stop_releases_and_unblocks:
  "Stop e (New p) = Inr (None, New p)
   \<and> (fsWatcher w = None \<longrightarrow> Stop e w = Inr (None, w))
   \<and> (fsWatcher w = Some fw \<and> \<not> done_closed w \<longrightarrow>
        (\<exists>err w'. Stop e w = Inr (err, w')
           \<and> err = (if closed fw then None else closeErr e)
           \<and> done_closed w'
           \<and> fsWatcher w' = Some (fw\<lparr>closed := True\<rparr>)
           \<and> receive_done w = WaitsForDone
           \<and> receive_done w' = Returns None
           \<and> eventBuffer w' = eventBuffer w \<and> debounceTimer w' = debounceTimer w
           \<and> timers w' = timers w \<and> logged w' = logged w \<and> wpath w' = wpath w))"
proof (intro conjI impI)
  show "Stop e (New p) = Inr (None, New p)" by (simp add: Stop_def New_def)
  show "Stop e w = Inr (None, w)" if "fsWatcher w = None" using that by (rule Stop_nil)
  show "\<exists>err w'. Stop e w = Inr (err, w')
           \<and> err = (if closed fw then None else closeErr e)
           \<and> done_closed w'
           \<and> fsWatcher w' = Some (fw\<lparr>closed := True\<rparr>)
           \<and> receive_done w = WaitsForDone
           \<and> receive_done w' = Returns None
           \<and> eventBuffer w' = eventBuffer w \<and> debounceTimer w' = debounceTimer w
           \<and> timers w' = timers w \<and> logged w' = logged w \<and> wpath w' = wpath w"
    if "fsWatcher w = Some fw \<and> \<not> done_closed w"
    using that by (simp add: Stop_open receive_done_def)
qed

theorem stop_releases_and_unblocks_witness:
  "fsWatcher (New ''/vault'') = None
   \<and> Stop vault_env (New ''/vault'') = Inr (None, New ''/vault'')
   \<and> fsWatcher running =
        Some \<lparr>watches = {''/vault'', ''/vault/a.md'', ''/vault/notes'', ''/vault/notes/b.md''},
              closed = False\<rparr>
   \<and> \<not> done_closed running
   \<and> Stop vault_env running = Inr (None, stopped)
   \<and> receive_done running = WaitsForDone
   \<and> receive_done stopped = Returns None"
proof -
  let ?fw = "\<lparr>watches = {''/vault'', ''/vault/a.md'', ''/vault/notes'', ''/vault/notes/b.md''},
              closed = False\<rparr>"
  have n: "fsWatcher (New ''/vault'') = None" by (simp add: New_def)
  have f: "fsWatcher running = Some ?fw" by (simp add: running_eq)
  have d: "\<not> done_closed running" by (simp add: running_eq)
  note inst = stop_releases_and_unblocks [of vault_env "''/vault''" running ?fw]
  from inst have 0: "Stop vault_env (New ''/vault'') = Inr (None, New ''/vault'')"
    by (rule conjunct1)
  from inst f d obtain err w' where
    s: "Stop vault_env running = Inr (err, w')" and e: "err = (if closed ?fw then None else closeErr vault_env)"
    and r: "receive_done running = WaitsForDone" and r': "receive_done w' = Returns None"
    by auto
  have "Stop vault_env running = Inr (None, stopped)"
    by (simp add: Stop_def Close_def stopped_def running_eq vault_env_def Let_def)
  with s have "w' = stopped" by simp
  with r' have r2: "receive_done stopped = Returns None" by simp
  have s2: "Stop vault_env running = Inr (None, stopped)" by fact
  from n 0 f d s2 r r2 show ?thesis by - (intro conjI; assumption)
qed

section \<open>Properties of the registrar\<close>

text \<open>
  The function that \<open>addRecursive\<close> hands to the walk returns nil or, for a directory,
  \<open>SkipDir\<close>; it never returns another error and it keeps the notification source.
\<close>

lemma addRecursive_fn_result:
  assumes "fsWatcher w \<noteq> None" and "err \<noteq> None \<or> d \<noteq> None"
    and "addRecursive_fn e root p d err w = (r, w')"
  shows "fsWatcher w' \<noteq> None
       \<and> (r = Nil \<or> (r = SkipDir \<and> err = None \<and> (\<exists>de. d = Some de \<and> dIsDir de)))"
  using assms
  by (auto simp: addRecursive_fn_def logf_def Add_def
           split: option.splits if_splits prod.splits)

lemma walkDir_entries_nil:
  assumes "\<And>d p w. d \<in> set ds \<Longrightarrow> fsWatcher w \<noteq> None \<Longrightarrow>
             fst (walkDir F p d w) = Nil \<and> fsWatcher (snd (walkDir F p d w)) \<noteq> None"
    and "fsWatcher w \<noteq> None"
  shows "fst (walkDir_entries F p ds w) = Nil
       \<and> fsWatcher (snd (walkDir_entries F p ds w)) \<noteq> None"
  using assms
proof (induction ds arbitrary: w)
  case Nil
  then show ?case by simp
next
  case (Cons d1 ds)
  obtain r s1 where w1: "walkDir F (Join p (dName d1)) d1 w = (r, s1)"
    by (cases "walkDir F (Join p (dName d1)) d1 w")
  from Cons.prems(1) [of d1 w "Join p (dName d1)"] Cons.prems(2) w1
  have r: "r = Nil" and s1: "fsWatcher s1 \<noteq> None" by simp_all
  have "fst (walkDir_entries F p ds s1) = Nil
       \<and> fsWatcher (snd (walkDir_entries F p ds s1)) \<noteq> None"
    by (rule Cons.IH) (use Cons.prems(1) s1 in auto)
  then show ?case using w1 r by simp
qed

lemma walkDir_nil:
  assumes "fsWatcher w \<noteq> None"
  shows "fst (walkDir (addRecursive_fn e root) p d w) = Nil
       \<and> fsWatcher (snd (walkDir (addRecursive_fn e root) p d w)) \<noteq> None"
  using assms
proof (induction d arbitrary: p w)
  case (DirEntry name isdir rerr ds)
  let ?F = "addRecursive_fn e root"
  let ?d = "DirEntry name isdir rerr ds"
  obtain r s1 where c1: "?F p (Some ?d) None w = (r, s1)" by (cases "?F p (Some ?d) None w")
  from addRecursive_fn_result [OF DirEntry.prems _ c1]
  have s1: "fsWatcher s1 \<noteq> None" and r: "r = Nil \<or> (r = SkipDir \<and> isdir)" by auto
  show ?case
  proof (cases "r \<noteq> Nil \<or> \<not> isdir")
    case True
    then show ?thesis using c1 r s1 by auto
  next
    case False
    then have isd: "isdir" and rn: "r = Nil" by simp_all
    have below: "fst (walkDir_entries ?F p ds s) = Nil
        \<and> fsWatcher (snd (walkDir_entries ?F p ds s)) \<noteq> None" if "fsWatcher s \<noteq> None" for s
      by (rule walkDir_entries_nil) (use DirEntry.IH that in auto)
    show ?thesis
    proof (cases rerr)
      case None
      with c1 isd rn have "walkDir ?F p ?d w = walkDir_entries ?F p ds s1" by simp
      with below [OF s1] show ?thesis by simp
    next
      case (Some err)
      obtain r2 s2 where c2: "?F p (Some ?d) (Some err) s1 = (r2, s2)"
        by (cases "?F p (Some ?d) (Some err) s1")
      from addRecursive_fn_result [OF s1 _ c2]
      have r2: "r2 = Nil" and s2: "fsWatcher s2 \<noteq> None" by auto
      from c1 c2 Some isd rn r2 have "walkDir ?F p ?d w = walkDir_entries ?F p ds s2" by simp
      with below [OF s2] show ?thesis by simp
    qed
  qed
qed

text \<open>With a notification source, \<open>addRecursive\<close> returns nil, whatever the tree.\<close>

lemma addRecursive_nil:
  assumes "fsWatcher w \<noteq> None"
  shows "fst (addRecursive e root w) = Nil"
proof (cases "lstat e root")
  case (Inl err)
  obtain r w' where c: "addRecursive_fn e root root None (Some err) w = (r, w')"
    by (cases "addRecursive_fn e root root None (Some err) w")
  from addRecursive_fn_result [OF assms _ c] have "r = Nil" by auto
  with c Inl show ?thesis by (simp add: addRecursive_def WalkDir_def)
next
  case (Inr info)
  obtain r w' where c: "walkDir (addRecursive_fn e root) root info w = (r, w')"
    by (cases "walkDir (addRecursive_fn e root) root info w")
  with walkDir_nil [OF assms, of e root root info] have "r = Nil" by simp
  with c Inr show ?thesis by (simp add: addRecursive_def WalkDir_def)
qed

text \<open>
  \<open>Start\<close> returns an error exactly when the notification source cannot be created; it
  never does so because of the walk.
\<close>

lemma Start_error_iff:
  "(\<exists>m. fst (Start e w) = Returns (Some m)) \<longleftrightarrow> newWatcherErr e \<noteq> None"
proof (cases "newWatcherErr e")
  case (Some err)
  then show ?thesis by (simp add: Start_def)
next
  case None
  let ?w1 = "w\<lparr>fsWatcher := Some \<lparr>watches = {}, closed = False\<rparr>\<rparr>"
  obtain r w2 where c: "addRecursive e (wpath ?w1) ?w1 = (r, w2)"
    by (cases "addRecursive e (wpath ?w1) ?w1")
  have "fst (addRecursive e (wpath ?w1) ?w1) = Nil" by (rule addRecursive_nil) simp
  with c have "r = Nil" by simp
  with c None show ?thesis by (simp add: Start_def Let_def receive_done_def)
qed

text \<open>
  Claim C7 against the code. The root of the walk does not exist: \<open>Lstat\<close> fails on it.
  \<open>Start\<close> creates the notification source, logs the failure as a warning, registers
  nothing, announces that it is watching and parks at the receive; it returns no error, and
  once \<open>Stop\<close> has been called it returns nil.
\<close>

theorem start_ignores_unreadable_root:
  "lstat quiet_env ''/gone'' = Inl ''no such file or directory''
   \<and> newWatcherErr quiet_env = None
   \<and> Start quiet_env (New ''/gone'') =
       (WaitsForDone,
        \<lparr>wpath = ''/gone'', fsWatcher = Some \<lparr>watches = {}, closed = False\<rparr>,
         done_closed = False, eventBuffer = Map.empty, debounceTimer = None, timers = [],
         logged = [ErrorAccessing ''/gone'' ''no such file or directory'',
                   WatchingForChanges ''/gone'']\<rparr>)
   \<and> fst (addRecursive quiet_env ''/gone''
             ((New ''/gone'')\<lparr>fsWatcher := Some \<lparr>watches = {}, closed = False\<rparr>\<rparr>)) = Nil"
  by (simp add: Start_def quiet_env_def New_def addRecursive_def WalkDir_def
        addRecursive_fn_def logf_def receive_done_def Let_def)

text \<open>
  A refusal on the way: the source refuses one directory of the vault; the refusal is logged,
  the walk goes on to what lies below and beside it, and \<open>Start\<close> parks without an error.
\<close>

lemma start_logs_refused_directory:
  "Start (vault_env\<lparr>addErr := (\<lambda>p. if p = ''/vault/notes'' then Some ''permission denied''
                                      else None)\<rparr>) (New ''/vault'') =
     (WaitsForDone,
      \<lparr>wpath = ''/vault'',
       fsWatcher = Some \<lparr>watches = {''/vault'', ''/vault/a.md'', ''/vault/notes/b.md''},
                          closed = False\<rparr>,
       done_closed = False, eventBuffer = Map.empty, debounceTimer = None, timers = [],
       logged = [AddedDirectoryToWatch ''/vault'', AddedDirectoryToWatch ''/vault/a.md'',
                 FailedToWatchDirectory ''/vault/notes'' ''permission denied'',
                 AddedDirectoryToWatch ''/vault/notes/b.md'',
                 WatchingForChanges ''/vault'']\<rparr>)"
  by (simp add: Start_def vault_env_def vault_tree_def New_def addRecursive_def WalkDir_def
        addRecursive_fn_def Add_def HasPrefix_def Join_def logf_def receive_done_def Let_def
        insert_commute)

lemma addRecursive_fn_watched:
  assumes "addRecursive_fn e root p d err w = (r, w')"
  shows "watched w \<subseteq> watched w'
       \<and> watched w' \<subseteq> watched w \<union>
            (case d of
               None \<Rightarrow> {}
             | Some de \<Rightarrow>
                 if err = None \<and> \<not> (dIsDir de \<and> HasPrefix (dName de) ''.'' \<and> p \<noteq> root)
                 then {p} else {})"
  using assms
  by (auto simp: addRecursive_fn_def watched_def logf_def Add_def
           split: option.splits if_splits prod.splits)

lemma not_hidden_here:
  "\<not> (isdir \<and> HasPrefix name ''.'' \<and> p \<noteq> root) \<Longrightarrow>
     p \<in> not_hidden root p (DirEntry name isdir rerr ds)"
  by (auto simp: not_hidden_def)

lemma not_hidden_below:
  "d \<in> set ds \<Longrightarrow>
     not_hidden root (Join p (dName d)) d \<subseteq> not_hidden root p (DirEntry name isdir rerr ds)"
  by (auto simp: not_hidden_def)

lemma walkDir_entries_watched:
  assumes "\<And>d p w. d \<in> set ds \<Longrightarrow>
             watched (snd (walkDir F p d w)) \<subseteq> watched w \<union> not_hidden root p d"
  shows "watched (snd (walkDir_entries F p ds w)) \<subseteq>
           watched w \<union> (\<Union>d \<in> set ds. not_hidden root (Join p (dName d)) d)"
  using assms
proof (induction ds arbitrary: w)
  case Nil
  show ?case by simp
next
  case (Cons d1 ds)
  obtain r s1 where w1: "walkDir F (Join p (dName d1)) d1 w = (r, s1)"
    by (cases "walkDir F (Join p (dName d1)) d1 w")
  from Cons.prems [of d1 "Join p (dName d1)" w] w1
  have 1: "watched s1 \<subseteq> watched w \<union> not_hidden root (Join p (dName d1)) d1" by simp
  have 2: "watched (snd (walkDir_entries F p ds s1)) \<subseteq>
           watched s1 \<union> (\<Union>d \<in> set ds. not_hidden root (Join p (dName d)) d)"
    by (rule Cons.IH) (use Cons.prems in auto)
  show ?case
  proof (cases "r = Nil")
    case True
    with w1 have "walkDir_entries F p (d1 # ds) w = walkDir_entries F p ds s1" by simp
    with 1 2 show ?thesis by auto
  next
    case False
    with w1 have "snd (walkDir_entries F p (d1 # ds) w) = s1" by simp
    with 1 show ?thesis by auto
  qed
qed

lemma walkDir_watched:
  "watched (snd (walkDir (addRecursive_fn e root) p d w)) \<subseteq> watched w \<union> not_hidden root p d"
proof (induction d arbitrary: p w)
  case (DirEntry name isdir rerr ds)
  let ?F = "addRecursive_fn e root"
  let ?d = "DirEntry name isdir rerr ds"
  obtain r s1 where c1: "?F p (Some ?d) None w = (r, s1)" by (cases "?F p (Some ?d) None w")
  from addRecursive_fn_watched [OF c1]
  have "watched s1 \<subseteq> watched w \<union>
          (if \<not> (isdir \<and> HasPrefix name ''.'' \<and> p \<noteq> root) then {p} else {})" by simp
  then have s1: "watched s1 \<subseteq> watched w \<union> not_hidden root p ?d"
    using not_hidden_here [of isdir name p root rerr ds] by (auto split: if_splits)
  have below: "watched (snd (walkDir_entries ?F p ds s)) \<subseteq> watched s \<union> not_hidden root p ?d"
    for s
  proof -
    have "watched (snd (walkDir_entries ?F p ds s)) \<subseteq>
           watched s \<union> (\<Union>d \<in> set ds. not_hidden root (Join p (dName d)) d)"
      by (rule walkDir_entries_watched) (use DirEntry.IH in auto)
    then show ?thesis using not_hidden_below [of _ ds root p name isdir rerr] by blast
  qed
  show ?case
  proof (cases "r \<noteq> Nil \<or> \<not> isdir")
    case True
    with c1 have "snd (walkDir ?F p ?d w) = s1" by simp
    with s1 show ?thesis by simp
  next
    case False
    then have isd: "isdir" and rn: "r = Nil" by simp_all
    show ?thesis
    proof (cases rerr)
      case None
      with c1 isd rn have "walkDir ?F p ?d w = walkDir_entries ?F p ds s1" by simp
      with below [of s1] s1 show ?thesis by auto
    next
      case (Some err)
      obtain r2 s2 where c2: "?F p (Some ?d) (Some err) s1 = (r2, s2)"
        by (cases "?F p (Some ?d) (Some err) s1")
      from addRecursive_fn_watched [OF c2] have s2: "watched s2 \<subseteq> watched s1" by simp
      show ?thesis
      proof (cases "r2 = Nil")
        case True
        with c1 c2 Some isd rn have "walkDir ?F p ?d w = walkDir_entries ?F p ds s2" by simp
        with below [of s2] s1 s2 show ?thesis by auto
      next
        case False
        with c1 c2 Some isd rn have "snd (walkDir ?F p ?d w) = s2" by simp
        with s1 s2 show ?thesis by auto
      qed
    qed
  qed
qed

text \<open>
  The initial walk registers nothing but paths of the tree that are not those of a hidden
  directory other than the root.
\<close>

lemma addRecursive_skips_hidden:
  "watched (snd (addRecursive e root w)) \<subseteq>
     watched w \<union> (case lstat e root of Inl err \<Rightarrow> {} | Inr info \<Rightarrow> not_hidden root root info)"
proof (cases "lstat e root")
  case (Inl err)
  obtain r w' where c: "addRecursive_fn e root root None (Some err) w = (r, w')"
    by (cases "addRecursive_fn e root root None (Some err) w")
  from addRecursive_fn_watched [OF c] have "watched w' \<subseteq> watched w" by simp
  with c Inl show ?thesis by (simp add: addRecursive_def WalkDir_def)
next
  case (Inr info)
  obtain r w' where c: "walkDir (addRecursive_fn e root) root info w = (r, w')"
    by (cases "walkDir (addRecursive_fn e root) root info w")
  with walkDir_watched [of e root root info w]
  have "watched w' \<subseteq> watched w \<union> not_hidden root root info" by simp
  with c Inr show ?thesis by (simp add: addRecursive_def WalkDir_def)
qed

text \<open>
  Claim C6 against the code. The initial walk of the example vault leaves out the hidden
  directory \<open>.obsidian\<close> and what lies below it. When a directory with a hidden name is
  created under the root afterwards, the raw create event makes \<open>handleDirectoryEvent\<close>
  register it: the incremental path has no test of the name.
\<close>

theorem hidden_directory_registered_on_create:
  "HasPrefix (Base ''/vault/.trash'') ''.''
   \<and> isDirectory vault_env ''/vault/.trash''
   \<and> ''/vault/.trash'' \<noteq> wpath running
   \<and> fsWatcher running =
        Some \<lparr>watches = {''/vault'', ''/vault/a.md'', ''/vault/notes'', ''/vault/notes/b.md''},
              closed = False\<rparr>
   \<and> bufferEvent vault_env 0 \<lparr>Name = ''/vault/.trash'', Op = Create\<rparr> running =
        Inr (running
              \<lparr>fsWatcher :=
                 Some \<lparr>watches = {''/vault/.trash'', ''/vault'', ''/vault/a.md'', ''/vault/notes'',
                                  ''/vault/notes/b.md''},
                       closed = False\<rparr>,
               logged := logged running @ [NewDirectoryCreated ''/vault/.trash'']\<rparr>)"
  by (simp add: running_eq bufferEvent_def handleDirectoryEvent_def isDirectory_def
        vault_env_def isMarkdownFile_def Ext_def Base_def HasPrefix_def Add_def logf_def
        Create_def Let_def)

end
